theory Spec2Isabelle
  imports Main "HOL-Library.Word" "HOL-Library.Signed_Division" "HOL-Library.Monad_Syntax"
begin

unbundle bit_operations_syntax

section \<open>Bits, word buffers and the store\<close>

text \<open>
  The C type \<open>bit\<close> holds 0 or 1; it is modelled as \<open>bool\<close> (\<open>True\<close> is 1). The C
  operators on bits become \<open>\<and>\<close> (for \<open>&\<close>), \<open>\<or>\<close> (for \<open>|\<close>) and \<open>\<noteq>\<close> (for \<open>^\<close>).

  A C \<open>word\<close> is a buffer of \<open>wordsize\<close> bits that every function receives by
  reference, so that two parameters may name the same buffer. A buffer is named by an
  \<open>addr\<close>; the \<open>store\<close> gives the contents of every buffer as a 32-bit value, bit 0
  the least significant one. The addresses are the three global constants of alu.h,
  the buffers a caller owns (\<open>Caller n\<close>), and one address for each local \<open>word\<close>
  variable of alu.c (no function of alu.c is recursive, so one address each is enough).
\<close>

type_synonym bit = bool

datatype addr =
    ZeroWord | MaxWord | MinWord
  | Caller nat
  | Ash_localop
  | Csh_localop
  | Lsh_localop
  | Mul_localop1 | Mul_localop2 | Mul_one
  | Div2_w1 | Div2_w2 | Div2_test
  | Div_remainder
  | Rem_quotient

type_synonym store = "addr \<Rightarrow> 32 word"

text \<open>
  Modelled from the spec: alu.h is not among the sources. It declares the constants
  \<open>wordsize\<close> and \<open>wordtopbit\<close>, the words \<open>zeroWord\<close>, \<open>maxWord\<close> and \<open>minWord\<close>,
  and the accessors \<open>getBitOfWord\<close>, \<open>setBitOfWord\<close>, \<open>setWord\<close>, \<open>notBit\<close> and
  \<open>toBit\<close>. alu.c itself uses the literals 31 and 32 for the sign bit and the length
  (testLtWord, testGeWord, cshWord, mulWord), which fixes the width at 32. The
  accessors are valid for an index in 0..wordtopbit only; an access outside that range
  has no result (\<open>None\<close>).
\<close>

definition wordsize :: int where
  "wordsize = 32"

definition wordtopbit :: int where
  "wordtopbit = wordsize - 1"

definition zeroWord :: "32 word" where
  "zeroWord = 0"

definition maxWord :: "32 word" where
  "maxWord = 0x7FFFFFFF"

definition minWord :: "32 word" where
  "minWord = 0x80000000"

definition globals_ok :: "store \<Rightarrow> bool" where
  "globals_ok s \<longleftrightarrow> s ZeroWord = zeroWord \<and> s MaxWord = maxWord \<and> s MinWord = minWord"

definition getBitOfWord :: "addr \<Rightarrow> int \<Rightarrow> store \<Rightarrow> bit option" where
  "getBitOfWord w i s =
     (if 0 \<le> i \<and> i \<le> wordtopbit then Some (bit (s w) (nat i)) else None)"

definition setBitOfWord :: "addr \<Rightarrow> int \<Rightarrow> bit \<Rightarrow> store \<Rightarrow> store option" where
  "setBitOfWord w i v s =
     (if 0 \<le> i \<and> i \<le> wordtopbit
      then Some (s(w := (if v then set_bit (nat i) (s w) else unset_bit (nat i) (s w))))
      else None)"

definition setWord :: "addr \<Rightarrow> addr \<Rightarrow> store \<Rightarrow> store" where
  "setWord dst src s = s(dst := s src)"

definition notBit :: "bit \<Rightarrow> bit" where
  "notBit b = (\<not> b)"

definition toBit :: "nat \<Rightarrow> bit" where
  "toBit r = odd r"

text \<open>
  C's \<open>abs\<close> on \<open>int\<close>: undefined at \<open>INT_MIN\<close>, whose magnitude is no \<open>int\<close>.
\<close>

definition c_abs :: "int \<Rightarrow> int option" where
  "c_abs n = (if n = - (2 ^ 31) then None else Some \<bar>n\<bar>)"

section \<open>Loops\<close>

text \<open>
  \<open>for (b = hi; b >= lo; b--) body\<close> and \<open>for (b = lo; b <= hi; b++) body\<close> over a
  loop state; a body that fails ends the loop. The strict tests \<open>b > x\<close> and \<open>b < x\<close>
  on C ints are written \<open>b \<ge> x + 1\<close> and \<open>b \<le> x - 1\<close>.
\<close>

function for_down :: "int \<Rightarrow> int \<Rightarrow> (int \<Rightarrow> 'st \<Rightarrow> 'st option) \<Rightarrow> 'st \<Rightarrow> 'st option" where
  "for_down b lo body s =
     (if b \<ge> lo
      then (case body b s of None \<Rightarrow> None | Some s' \<Rightarrow> for_down (b - 1) lo body s')
      else Some s)"
  by pat_completeness auto
termination
  by (relation "measure (\<lambda>(b, lo, body, s). nat (b - lo + 1))") auto

function for_up :: "int \<Rightarrow> int \<Rightarrow> (int \<Rightarrow> 'st \<Rightarrow> 'st option) \<Rightarrow> 'st \<Rightarrow> 'st option" where
  "for_up b hi body s =
     (if b \<le> hi
      then (case body b s of None \<Rightarrow> None | Some s' \<Rightarrow> for_up (b + 1) hi body s')
      else Some s)"
  by pat_completeness auto
termination
  by (relation "measure (\<lambda>(b, hi, body, s). nat (hi - b + 1))") auto

declare for_down.simps [simp del]
declare for_up.simps [simp del]

section \<open>Comparator\<close>

definition testLtWord :: "addr \<Rightarrow> store \<Rightarrow> bool option" where
  "testLtWord opd s = do {
     bitofsign \<leftarrow> getBitOfWord opd 31 s;
     if bitofsign = True then Some True else Some False
   }"

definition testGeWord :: "addr \<Rightarrow> store \<Rightarrow> bool option" where
  "testGeWord opd s = do {
     bitofsign \<leftarrow> getBitOfWord opd 31 s;
     if bitofsign = True then Some False else Some True
   }"

function testEqWord_from :: "int \<Rightarrow> addr \<Rightarrow> store \<Rightarrow> bool option" where
  "testEqWord_from b opd s =
     (if b \<le> wordtopbit
      then do {
        t \<leftarrow> getBitOfWord opd b s;
        if t \<noteq> False then Some False else testEqWord_from (b + 1) opd s
      }
      else Some True)"
  by pat_completeness auto
termination
  by (relation "measure (\<lambda>(b, opd, s). nat (wordtopbit - b + 1))") auto

declare testEqWord_from.simps [simp del]

definition testEqWord :: "addr \<Rightarrow> store \<Rightarrow> bool option" where
  "testEqWord opd s = testEqWord_from 0 opd s"

section \<open>Shift and mask unit\<close>

definition ashWord :: "addr \<Rightarrow> addr \<Rightarrow> int \<Rightarrow> store \<Rightarrow> store option" where
  "ashWord result opd count s = do {
     c \<leftarrow> c_abs count;
     let c = (if c \<ge> wordsize then wordsize - 1 else c);
     let s = setWord Ash_localop opd s;
     sign \<leftarrow> getBitOfWord Ash_localop wordtopbit s;
     s \<leftarrow> (if count < 0 then do {
            s \<leftarrow> for_down (wordtopbit - 1) c (\<lambda>b s. do {
                   t \<leftarrow> getBitOfWord Ash_localop b s;
                   setBitOfWord result (b - c) t s }) s;
            for_down c 1 (\<lambda>b s. setBitOfWord result (wordtopbit - b) sign s) s
          } else do {
            s \<leftarrow> for_down (wordtopbit - 1) c (\<lambda>b s. do {
                   t \<leftarrow> getBitOfWord Ash_localop (b - c) s;
                   setBitOfWord result b t s }) s;
            for_down (c - 1) 0 (\<lambda>b s. setBitOfWord result b False s) s
          });
     setBitOfWord result wordtopbit sign s
   }"

text \<open>
  cshWord never tests the sign of \<open>count\<close>. C's \<open>%\<close> truncates; it is \<open>smod\<close> here.
\<close>

definition cshWord :: "addr \<Rightarrow> addr \<Rightarrow> int \<Rightarrow> store \<Rightarrow> store option" where
  "cshWord result opd count s = do {
     c \<leftarrow> c_abs count;
     let c = (if c > 32 then c - 32 else c);
     let s = (if c = 0 \<or> c smod 32 = 0 then setWord result opd s else s);
     let s = setWord Csh_localop opd s;
     s \<leftarrow> (if c < wordsize sdiv 2 then do {
            s \<leftarrow> for_down wordtopbit (wordtopbit - c + 1) (\<lambda>b s. do {
                   t \<leftarrow> getBitOfWord Csh_localop b s;
                   setBitOfWord result (b smod (32 - c)) t s }) s;
            for_down (wordtopbit - c) c (\<lambda>p s. do {
                   t \<leftarrow> getBitOfWord Csh_localop p s;
                   setBitOfWord result ((p smod (32 - c)) + c) t s }) s
          } else Some s);
     (if c \<ge> wordsize sdiv 2 then do {
            s \<leftarrow> for_down wordtopbit (wordtopbit - c + 1) (\<lambda>b s. do {
                   t \<leftarrow> getBitOfWord Csh_localop b s;
                   setBitOfWord result (b - (32 - c)) t s }) s;
            for_down (wordtopbit - c) 0 (\<lambda>p s. do {
                   t \<leftarrow> getBitOfWord Csh_localop p s;
                   setBitOfWord result ((p smod c) + c) t s }) s
          } else Some s)
   }"

definition lshWord :: "addr \<Rightarrow> addr \<Rightarrow> int \<Rightarrow> store \<Rightarrow> store option" where
  "lshWord result opd count s = do {
     c \<leftarrow> c_abs count;
     let c = (if c \<ge> wordsize then wordsize - 1 else c);
     let s = setWord Lsh_localop opd s;
     if count < 0 then do {
       s \<leftarrow> for_down wordtopbit c (\<lambda>b s. do {
              t \<leftarrow> getBitOfWord Lsh_localop b s;
              setBitOfWord result (b - c) t s }) s;
       for_down (c - 1) 0 (\<lambda>b s. setBitOfWord result (wordtopbit - b) False s) s
     } else do {
       s \<leftarrow> for_down wordtopbit c (\<lambda>b s. do {
              t \<leftarrow> getBitOfWord Lsh_localop (b - c) s;
              setBitOfWord result b t s }) s;
       for_down (c - 1) 0 (\<lambda>b s. setBitOfWord result b False s) s
     }
   }"

definition maskWord :: "addr \<Rightarrow> addr \<Rightarrow> int \<Rightarrow> store \<Rightarrow> store option" where
  "maskWord result opd count s = do {
     c \<leftarrow> c_abs count;
     let c = (if c > wordsize then wordsize else c);
     if count < 0 then do {
       let wtbc = wordtopbit - c;
       s \<leftarrow> for_down wordtopbit (wtbc + 1) (\<lambda>b s. do {
              t \<leftarrow> getBitOfWord opd b s;
              setBitOfWord result b t s }) s;
       for_down wtbc 0 (\<lambda>b s. setBitOfWord result b False s) s
     } else do {
       s \<leftarrow> for_up 0 (c - 1) (\<lambda>b s. do {
              t \<leftarrow> getBitOfWord opd b s;
              setBitOfWord result b t s }) s;
       for_up c wordtopbit (\<lambda>b s. setBitOfWord result b False s) s
     }
   }"

section \<open>Logic unit\<close>

definition andWord :: "addr \<Rightarrow> addr \<Rightarrow> addr \<Rightarrow> store \<Rightarrow> store option" where
  "andWord result op1 op2 s =
     for_up 0 wordtopbit (\<lambda>b s. do {
       t1 \<leftarrow> getBitOfWord op1 b s;
       t2 \<leftarrow> getBitOfWord op2 b s;
       setBitOfWord result b (t1 \<and> t2) s }) s"

definition orWord :: "addr \<Rightarrow> addr \<Rightarrow> addr \<Rightarrow> store \<Rightarrow> store option" where
  "orWord result op1 op2 s =
     for_up 0 wordtopbit (\<lambda>b s. do {
       t1 \<leftarrow> getBitOfWord op1 b s;
       t2 \<leftarrow> getBitOfWord op2 b s;
       setBitOfWord result b (t1 \<or> t2) s }) s"

definition xorWord :: "addr \<Rightarrow> addr \<Rightarrow> addr \<Rightarrow> store \<Rightarrow> store option" where
  "xorWord result op1 op2 s =
     for_up 0 wordtopbit (\<lambda>b s. do {
       t1 \<leftarrow> getBitOfWord op1 b s;
       t2 \<leftarrow> getBitOfWord op2 b s;
       setBitOfWord result b (t1 \<noteq> t2) s }) s"

definition notWord :: "addr \<Rightarrow> addr \<Rightarrow> store \<Rightarrow> store option" where
  "notWord result opd s =
     for_up 0 wordtopbit (\<lambda>b s. do {
       t \<leftarrow> getBitOfWord opd b s;
       setBitOfWord result b (notBit t) s }) s"

section \<open>Adder and subtractor\<close>

text \<open>
  The loop state is the carry and the store. \<open>r\<close> is the C \<open>uint8_t\<close> sum (0..3);
  \<open>carry = r >> 1\<close> is the bit \<open>r div 2\<close>.
\<close>

definition addWord :: "addr \<Rightarrow> addr \<Rightarrow> addr \<Rightarrow> store \<Rightarrow> store option" where
  "addWord result op1 op2 s =
     map_option snd
       (for_up 0 wordtopbit (\<lambda>b (carry, s). do {
          x \<leftarrow> getBitOfWord op1 b s;
          y \<leftarrow> getBitOfWord op2 b s;
          let r = (of_bool x + of_bool y + of_bool carry :: nat);
          s \<leftarrow> setBitOfWord result b (toBit r) s;
          Some (r div 2 = 1, s) }) (False, s))"

definition subWord :: "addr \<Rightarrow> addr \<Rightarrow> addr \<Rightarrow> store \<Rightarrow> store option" where
  "subWord result op1 op2 s =
     map_option snd
       (for_up 0 wordtopbit (\<lambda>b (carry, s). do {
          x \<leftarrow> getBitOfWord op1 b s;
          y \<leftarrow> getBitOfWord op2 b s;
          let r = (of_bool x + of_bool (notBit y) + of_bool carry :: nat);
          s \<leftarrow> setBitOfWord result b (toBit r) s;
          Some (r div 2 = 1, s) }) (True, s))"

definition negativeWord :: "addr \<Rightarrow> addr \<Rightarrow> store \<Rightarrow> store option" where
  "negativeWord result opd s = subWord result ZeroWord opd s"

section \<open>Multiplier\<close>

text \<open>
  The \<open>while\<close> loop of mulWord, with fuel: \<open>n\<close> is the number of times the body may
  still run; the loop has no result when the body would run once more than that.
\<close>

fun mulWord_loop :: "nat \<Rightarrow> addr \<Rightarrow> store \<Rightarrow> store option" where
  "mulWord_loop n result s = do {
     z \<leftarrow> testEqWord Mul_localop2 s;
     if z = False then
       (case n of
          0 \<Rightarrow> None
        | Suc m \<Rightarrow> do {
            t \<leftarrow> getBitOfWord Mul_localop2 0 s;
            s \<leftarrow> (if t \<noteq> False then addWord result result Mul_localop1 s else Some s);
            s \<leftarrow> lshWord Mul_localop1 Mul_localop1 1 s;
            s \<leftarrow> lshWord Mul_localop2 Mul_localop2 (- 1) s;
            mulWord_loop m result s })
     else Some s
   }"

declare mulWord_loop.simps [simp del]

definition mulWord :: "nat \<Rightarrow> addr \<Rightarrow> addr \<Rightarrow> addr \<Rightarrow> store \<Rightarrow> store option" where
  "mulWord fuel result op1 op2 s = do {
     let s = setWord Mul_localop1 op1 s;
     let s = setWord Mul_localop2 op2 s;
     let s = setWord result ZeroWord s;
     let s = setWord Mul_one ZeroWord s;
     s \<leftarrow> setBitOfWord Mul_one 0 True s;
     let negativeProduct = False;
     msb1 \<leftarrow> getBitOfWord Mul_localop1 31 s;
     msb2 \<leftarrow> getBitOfWord Mul_localop2 31 s;
     let negativeProduct = (if (msb1 \<noteq> msb2) = True then True else negativeProduct);
     s \<leftarrow> (if msb1 = True then do {
            s \<leftarrow> notWord Mul_localop1 Mul_localop1 s;
            addWord Mul_localop1 Mul_localop1 Mul_one s }
          else Some s);
     s \<leftarrow> (if msb2 = True then do {
            s \<leftarrow> notWord Mul_localop2 Mul_localop2 s;
            addWord Mul_localop2 Mul_localop2 Mul_one s }
          else Some s);
     s \<leftarrow> mulWord_loop fuel result s;
     if negativeProduct = True then do {
       s \<leftarrow> notWord result result s;
       addWord result result Mul_one s }
     else Some s
   }"

section \<open>Divider\<close>

definition div2Word_step :: "addr \<Rightarrow> addr \<Rightarrow> int \<Rightarrow> store \<Rightarrow> store option" where
  "div2Word_step result remainder b s = do {
     s \<leftarrow> lshWord remainder remainder 1 s;
     t \<leftarrow> getBitOfWord Div2_w1 b s;
     s \<leftarrow> setBitOfWord remainder 0 t s;
     s \<leftarrow> subWord Div2_test remainder Div2_w2 s;
     ge \<leftarrow> testGeWord Div2_test s;
     if ge then do {
       s \<leftarrow> setBitOfWord result b True s;
       Some (setWord remainder Div2_test s) }
     else Some s
   }"

definition div2Word :: "addr \<Rightarrow> addr \<Rightarrow> addr \<Rightarrow> addr \<Rightarrow> store \<Rightarrow> store option" where
  "div2Word result remainder op1 op2 s = do {
     let s = setWord result ZeroWord s;
     let s = setWord remainder ZeroWord s;
     z \<leftarrow> testEqWord op2 s;
     if z then do {
       ge \<leftarrow> testGeWord op1 s;
       Some (setWord result (if ge then MaxWord else MinWord) s) }
     else do {
       let resultNegative = False;
       lt1 \<leftarrow> testLtWord op1 s;
       s \<leftarrow> (if lt1 then negativeWord Div2_w1 op1 s else Some (setWord Div2_w1 op1 s));
       let resultNegative = (if lt1 then \<not> resultNegative else resultNegative);
       lt2 \<leftarrow> testLtWord op2 s;
       s \<leftarrow> (if lt2 then negativeWord Div2_w2 op2 s else Some (setWord Div2_w2 op2 s));
       let resultNegative = (if lt2 then \<not> resultNegative else resultNegative);
       s \<leftarrow> for_down wordtopbit 0 (div2Word_step result remainder) s;
       s \<leftarrow> (if resultNegative then negativeWord result result s else Some s);
       lt \<leftarrow> testLtWord op1 s;
       if lt then negativeWord remainder remainder s else Some s
     }
   }"

definition divWord :: "addr \<Rightarrow> addr \<Rightarrow> addr \<Rightarrow> store \<Rightarrow> store option" where
  "divWord result op1 op2 s = div2Word result Div_remainder op1 op2 s"

definition remainderWord :: "addr \<Rightarrow> addr \<Rightarrow> addr \<Rightarrow> store \<Rightarrow> store option" where
  "remainderWord result op1 op2 s = div2Word Rem_quotient result op1 op2 s"

section \<open>Values and predicates used in the statements and proofs\<close>

text \<open>
  None of the following is code of alu.c. \<open>readable\<close> holds of the addresses a
  caller can pass as an operand: the global words and the caller's own buffers.
  \<open>mag\<close>, \<open>quot_val\<close> and \<open>rem_val\<close> name the words div2Word computes: the
  magnitude of an operand, and the quotient and remainder of the magnitudes with the
  signs applied (\<open>div\<close> and \<open>mod\<close> on words are unsigned). \<open>ash_left_val\<close> is
  the left shift with the operand's sign bit put back. The other definitions are the
  invariants and frames of the loops.
\<close>

definition ripple_inv ::
  "store \<Rightarrow> addr \<Rightarrow> 32 word \<Rightarrow> 32 word \<Rightarrow> bool \<Rightarrow> int \<Rightarrow> bool \<times> store \<Rightarrow> bool" where
  "ripple_inv s result A B cin k ct \<longleftrightarrow>
     (case ct of (c, t) \<Rightarrow>
        0 \<le> k \<and> k \<le> 32 \<and>
        (\<forall>x. x \<noteq> result \<longrightarrow> t x = s x) \<and>
        (\<forall>i. nat k \<le> i \<longrightarrow> bit (t result) i = bit (s result) i) \<and>
        take_bit (nat k) (uint (t result)) + 2 ^ nat k * of_bool c =
          take_bit (nat k) (uint A) + take_bit (nat k) (uint B) + of_bool cin)"

definition mul_frame :: "addr \<Rightarrow> store \<Rightarrow> store \<Rightarrow> bool" where
  "mul_frame result s s' \<longleftrightarrow>
     (\<forall>x. x \<noteq> result \<and> x \<noteq> Mul_localop1 \<and> x \<noteq> Mul_localop2 \<and> x \<noteq> Lsh_localop \<longrightarrow> s' x = s x)"

fun readable :: "addr \<Rightarrow> bool" where
  "readable ZeroWord = True"
| "readable MaxWord = True"
| "readable MinWord = True"
| "readable (Caller n) = True"
| "readable a = False"

definition mag :: "32 word \<Rightarrow> 32 word" where
  "mag w = (if bit w 31 then - w else w)"

definition div_step_val :: "32 word \<Rightarrow> 32 word \<Rightarrow> bool \<Rightarrow> 32 word" where
  "div_step_val R D t =
     (if t then set_bit 0 (push_bit 1 R) else unset_bit 0 (push_bit 1 R)) - D"

definition div_frame :: "addr \<Rightarrow> addr \<Rightarrow> store \<Rightarrow> store \<Rightarrow> bool" where
  "div_frame result remainder s t \<longleftrightarrow>
     (\<forall>x. x \<noteq> result \<and> x \<noteq> remainder \<and> x \<noteq> Div2_test \<and> x \<noteq> Lsh_localop \<longrightarrow> t x = s x)"

definition div_inv :: "addr \<Rightarrow> addr \<Rightarrow> store \<Rightarrow> int \<Rightarrow> store \<Rightarrow> bool" where
  "div_inv result remainder s k t \<longleftrightarrow>
     - 1 \<le> k \<and> k \<le> 31 \<and> div_frame result remainder s t \<and>
     unat (t remainder) = (unat (s Div2_w1) div 2 ^ nat (k + 1)) mod unat (s Div2_w2) \<and>
     unat (t result) = (unat (s Div2_w1) div 2 ^ nat (k + 1)) div unat (s Div2_w2) * 2 ^ nat (k + 1)"

definition quot_val :: "32 word \<Rightarrow> 32 word \<Rightarrow> 32 word" where
  "quot_val A B = (if bit A 31 \<noteq> bit B 31 then - (mag A div mag B) else mag A div mag B)"

definition rem_val :: "32 word \<Rightarrow> 32 word \<Rightarrow> 32 word" where
  "rem_val A B = (if bit A 31 then - (mag A mod mag B) else mag A mod mag B)"

definition ash_left_val :: "32 word \<Rightarrow> nat \<Rightarrow> 32 word" where
  "ash_left_val A c = (if bit A 31 then set_bit 31 (push_bit c A) else unset_bit 31 (push_bit c A))"

text \<open>
  \<open>init_store\<close> holds the three global words and zero in every other buffer;
  \<open>buffer_after\<close> reads one buffer of the store an operation returns.
\<close>

definition init_store :: store where
  "init_store = (\<lambda>a. 0)(ZeroWord := zeroWord, MaxWord := maxWord, MinWord := minWord)"

definition buffer_after :: "store option \<Rightarrow> addr \<Rightarrow> 32 word option" where
  "buffer_after r a = map_option (\<lambda>s. s a) r"

section \<open>Accessors and loops: basic facts\<close>

lemma bit_put_iff:
  "n < 32 \<Longrightarrow> bit (if v then set_bit n (w::32 word) else unset_bit n w) i \<longleftrightarrow> (if i = n then v else bit w i)"
  by (auto simp: bit_set_bit_iff bit_unset_bit_iff)

lemma getBitOfWord_in:
  "0 \<le> i \<Longrightarrow> i \<le> 31 \<Longrightarrow> getBitOfWord w i s = Some (bit (s w) (nat i))"
  by (simp add: getBitOfWord_def wordtopbit_def wordsize_def)

lemma setBitOfWord_in:
  "0 \<le> i \<Longrightarrow> i \<le> 31 \<Longrightarrow>
   setBitOfWord w i v s = Some (s(w := (if v then set_bit (nat i) (s w) else unset_bit (nat i) (s w))))"
  by (simp add: setBitOfWord_def wordtopbit_def wordsize_def)

lemma for_down_rule:
  assumes "I hi s"
    and "\<And>b t. lo \<le> b \<Longrightarrow> b \<le> hi \<Longrightarrow> I b t \<Longrightarrow> \<exists>t'. body b t = Some t' \<and> I (b - 1) t'"
  shows "\<exists>t. for_down hi lo body s = Some t \<and> I (min hi (lo - 1)) t"
  using assms
proof (induction hi lo body s rule: for_down.induct)
  case (1 b lo body s)
  show ?case
  proof (cases "lo \<le> b")
    case True
    from "1.prems"(2) [OF True order_refl "1.prems"(1)]
    obtain t' where t': "body b s = Some t'" "I (b - 1) t'" by blast
    have "\<exists>t. for_down (b - 1) lo body t' = Some t \<and> I (min (b - 1) (lo - 1)) t"
      using True t' "1.prems"(2) by (intro "1.IH") auto
    moreover have "min (b - 1) (lo - 1) = min b (lo - 1)" using True by simp
    ultimately show ?thesis using True t' by (subst for_down.simps) simp
  next
    case False
    then have "min b (lo - 1) = b" by simp
    then show ?thesis using False "1.prems"(1) by (subst for_down.simps) simp
  qed
qed

lemma for_up_rule:
  assumes "I lo s"
    and "\<And>b t. lo \<le> b \<Longrightarrow> b \<le> hi \<Longrightarrow> I b t \<Longrightarrow> \<exists>t'. body b t = Some t' \<and> I (b + 1) t'"
  shows "\<exists>t. for_up lo hi body s = Some t \<and> I (max lo (hi + 1)) t"
  using assms
proof (induction lo hi body s rule: for_up.induct)
  case (1 b hi body s)
  show ?case
  proof (cases "b \<le> hi")
    case True
    from "1.prems"(2) [OF order_refl True "1.prems"(1)]
    obtain t' where t': "body b s = Some t'" "I (b + 1) t'" by blast
    have "\<exists>t. for_up (b + 1) hi body t' = Some t \<and> I (max (b + 1) (hi + 1)) t"
      using True t' "1.prems"(2) by (intro "1.IH") auto
    moreover have "max (b + 1) (hi + 1) = max b (hi + 1)" using True by simp
    ultimately show ?thesis using True t' by (subst for_up.simps) simp
  next
    case False
    then have "max b (hi + 1) = b" by simp
    then show ?thesis using False "1.prems"(1) by (subst for_up.simps) simp
  qed
qed

lemma testEqWord_from_eq:
  "0 \<le> b \<Longrightarrow> testEqWord_from b a s = Some (\<forall>i. nat b \<le> i \<and> i < 32 \<longrightarrow> \<not> bit (s a) i)"
proof (induction b a s rule: testEqWord_from.induct)
  case (1 b a s)
  show ?case
  proof (cases "b \<le> 31")
    case True
    have step: "(\<forall>i. nat b \<le> i \<and> i < 32 \<longrightarrow> \<not> bit (s a) i) \<longleftrightarrow>
                (\<not> bit (s a) (nat b) \<and> (\<forall>i. nat (b + 1) \<le> i \<and> i < 32 \<longrightarrow> \<not> bit (s a) i))"
      (is "?L \<longleftrightarrow> ?R")
    proof
      assume ?L then show ?R using True "1.prems" by auto
    next
      assume r: ?R
      show ?L
      proof (intro allI impI)
        fix i assume "nat b \<le> i \<and> i < 32"
        then have "i = nat b \<or> nat (b + 1) \<le> i" using "1.prems" by auto
        then show "\<not> bit (s a) i" using r \<open>nat b \<le> i \<and> i < 32\<close> by auto
      qed
    qed
    show ?thesis
    proof (cases "bit (s a) (nat b)")
      case True
      then show ?thesis using \<open>b \<le> 31\<close> "1.prems"
        by (subst testEqWord_from.simps) (auto simp: getBitOfWord_in wordtopbit_def wordsize_def)
    next
      case False
      have "testEqWord_from (b + 1) a s = Some (\<forall>i. nat (b + 1) \<le> i \<and> i < 32 \<longrightarrow> \<not> bit (s a) i)"
        using True False "1.prems"
        by (intro "1.IH") (auto simp: wordtopbit_def wordsize_def getBitOfWord_in)
      then show ?thesis using True False "1.prems" step
        by (subst testEqWord_from.simps) (simp add: getBitOfWord_in wordtopbit_def wordsize_def)
    qed
  next
    case False
    then show ?thesis using "1.prems"
      by (subst testEqWord_from.simps) (auto simp: wordtopbit_def wordsize_def)
  qed
qed

lemma testEqWord_eq: "testEqWord a s = Some (s a = 0)"
proof -
  have "(\<forall>i. i < 32 \<longrightarrow> \<not> bit (s a) i) \<longleftrightarrow> s a = 0"
    by (auto simp: bit_eq_iff dest: bit_imp_le_length)
  then show ?thesis
    using testEqWord_from_eq [of 0 a s] by (simp add: testEqWord_def)
qed

lemma testLtWord_eq: "testLtWord a s = Some (bit (s a) 31)"
  by (simp add: testLtWord_def getBitOfWord_in)

lemma testGeWord_eq: "testGeWord a s = Some (\<not> bit (s a) 31)"
  by (simp add: testGeWord_def getBitOfWord_in)

section \<open>The ripple-carry loop\<close>

lemma take_bit_put_same:
  "take_bit n (if v then set_bit n (w::32 word) else unset_bit n w) = take_bit n w"
  by (simp add: take_bit_set_bit_eq take_bit_unset_bit_eq)

lemma uint_take_bit_Suc:
  "take_bit (Suc n) (uint (w::32 word)) = take_bit n (uint w) + 2 ^ n * of_bool (bit w n)"
  using bit_imp_le_length [of w n] by (auto simp: take_bit_Suc_from_most bit_uint_iff)

lemma ripple_step:
  assumes inv: "ripple_inv s result (s a) B cin k (c, t)"
    and k: "0 \<le> k" "k \<le> 31"
    and B: "\<And>i. i < 32 \<Longrightarrow> bit B i = g (bit (s b) i)"
  shows "\<exists>ct'. (do {
          x \<leftarrow> getBitOfWord a k t;
          y \<leftarrow> getBitOfWord b k t;
          let r = (of_bool x + of_bool (g y) + of_bool c :: nat);
          t \<leftarrow> setBitOfWord result k (toBit r) t;
          Some (r div 2 = 1, t) }) = Some ct' \<and> ripple_inv s result (s a) B cin (k + 1) ct'"
proof -
  define n where "n = nat k"
  have n: "n < 32" "nat (k + 1) = Suc n" using k by (auto simp: n_def)
  from inv have frame: "\<And>x. x \<noteq> result \<Longrightarrow> t x = s x"
    and high: "\<And>i. n \<le> i \<Longrightarrow> bit (t result) i = bit (s result) i"
    and sum: "take_bit n (uint (t result)) + 2 ^ n * of_bool c =
              take_bit n (uint (s a)) + take_bit n (uint B) + of_bool cin"
    by (auto simp: ripple_inv_def n_def)
  have xa: "bit (t a) n = bit (s a) n" using frame [of a] high [of n] by (cases "a = result") auto
  have yb: "bit (t b) n = bit (s b) n" using frame [of b] high [of n] by (cases "b = result") auto
  define r :: nat where "r = of_bool (bit (s a) n) + of_bool (g (bit (s b) n)) + of_bool c"
  define w where "w = (if toBit r then set_bit n (t result) else unset_bit n (t result))"
  define t' where "t' = t(result := w)"
  have run: "(do {
          x \<leftarrow> getBitOfWord a k t;
          y \<leftarrow> getBitOfWord b k t;
          let r = (of_bool x + of_bool (g y) + of_bool c :: nat);
          t \<leftarrow> setBitOfWord result k (toBit r) t;
          Some (r div 2 = 1, t) }) = Some (r div 2 = 1, t')"
    using k xa yb by (simp add: getBitOfWord_in setBitOfWord_in Let_def n_def [symmetric] r_def t'_def w_def)
  have wbit: "bit w i \<longleftrightarrow> (if i = n then odd r else bit (t result) i)" for i
    unfolding w_def using n(1) by (simp add: bit_put_iff toBit_def)
  have low: "take_bit n (uint w) = take_bit n (uint (t result))"
    unfolding w_def by (simp flip: unsigned_take_bit_eq add: take_bit_put_same)
  have rle: "r \<le> 3" by (simp add: r_def)
  have rsplit: "int (of_bool (odd r)) + 2 * of_bool (r div 2 = 1) = int r"
  proof -
    have "r = 0 \<or> r = 1 \<or> r = 2 \<or> r = 3" using rle by arith
    then show ?thesis by (elim disjE) simp_all
  qed
  have "take_bit (Suc n) (uint w) + 2 ^ Suc n * of_bool (r div 2 = 1)
        = take_bit n (uint (t result)) + 2 ^ n * (int (of_bool (odd r)) + 2 * of_bool (r div 2 = 1))"
    by (simp add: uint_take_bit_Suc low wbit algebra_simps)
  also have "\<dots> = take_bit n (uint (t result)) + 2 ^ n * int r" by (simp only: rsplit)
  also have "\<dots> = take_bit n (uint (s a)) + take_bit n (uint B) + of_bool cin
                  + 2 ^ n * (of_bool (bit (s a) n) + of_bool (bit B n))"
    using sum B [OF n(1)] by (simp add: r_def algebra_simps)
  also have "\<dots> = take_bit (Suc n) (uint (s a)) + take_bit (Suc n) (uint B) + of_bool cin"
    by (simp add: uint_take_bit_Suc algebra_simps)
  finally have sum': "take_bit (Suc n) (uint w) + 2 ^ Suc n * of_bool (r div 2 = 1)
        = take_bit (Suc n) (uint (s a)) + take_bit (Suc n) (uint B) + of_bool cin" .
  have "ripple_inv s result (s a) B cin (k + 1) (r div 2 = 1, t')"
    unfolding ripple_inv_def using k frame high sum' n
    by (auto simp: t'_def wbit)
  with run show ?thesis by blast
qed

lemma ripple_loop:
  assumes B: "\<And>i. i < 32 \<Longrightarrow> bit B i = g (bit (s b) i)"
  shows "\<exists>c. for_up 0 wordtopbit (\<lambda>k (carry, s). do {
          x \<leftarrow> getBitOfWord a k s;
          y \<leftarrow> getBitOfWord b k s;
          let r = (of_bool x + of_bool (g y) + of_bool carry :: nat);
          s \<leftarrow> setBitOfWord result k (toBit r) s;
          Some (r div 2 = 1, s) }) (cin, s) = Some (c, s(result := s a + B + of_bool cin))"
proof -
  let ?body = "\<lambda>k (carry, s). do {
          x \<leftarrow> getBitOfWord a k s;
          y \<leftarrow> getBitOfWord b k s;
          let r = (of_bool x + of_bool (g y) + of_bool carry :: nat);
          s \<leftarrow> setBitOfWord result k (toBit r) s;
          Some (r div 2 = 1, s) }"
  have init: "ripple_inv s result (s a) B cin 0 (cin, s)"
    by (simp add: ripple_inv_def)
  have step: "\<exists>ct'. ?body k ct = Some ct' \<and> ripple_inv s result (s a) B cin (k + 1) ct'"
    if "0 \<le> k" "k \<le> 31" "ripple_inv s result (s a) B cin k ct" for k ct
  proof -
    obtain c t where ct: "ct = (c, t)" by (cases ct)
    show ?thesis using ripple_step [OF that(3) [unfolded ct] that(1,2) B] by (simp add: ct)
  qed
  from for_up_rule [of "ripple_inv s result (s a) B cin" 0 "(cin, s)" 31 ?body, OF init step]
  obtain ct where ct: "for_up 0 31 ?body (cin, s) = Some ct" "ripple_inv s result (s a) B cin 32 ct"
    by auto
  obtain c t where ct_eq: "ct = (c, t)" by (cases ct)
  from ct(2) have frame: "\<And>x. x \<noteq> result \<Longrightarrow> t x = s x"
    and sum: "uint (t result) + 2 ^ 32 * of_bool c = uint (s a) + uint B + of_bool cin"
    by (auto simp: ripple_inv_def ct_eq bintr_uint)
  have "word_of_int (uint (t result) + 2 ^ 32 * of_bool c) = (word_of_int (uint (s a) + uint B + of_bool cin) :: 32 word)"
    by (simp only: sum)
  moreover have "(4294967296 :: 32 word) = 0" by simp
  ultimately have "t result = s a + B + of_bool cin"
    by (cases cin) simp_all
  then have "t = s(result := s a + B + of_bool cin)"
    using frame by auto
  with ct(1) ct_eq show ?thesis by (auto simp: wordtopbit_def wordsize_def)
qed

section \<open>Adder, subtractor and complement as word arithmetic\<close>

lemma addWord_eq: "addWord result op1 op2 s = Some (s(result := s op1 + s op2))"
proof -
  from ripple_loop [of "s op2" "\<lambda>y. y" s op2 op1 result False]
  obtain c where "for_up 0 wordtopbit (\<lambda>k (carry, s). do {
          x \<leftarrow> getBitOfWord op1 k s;
          y \<leftarrow> getBitOfWord op2 k s;
          let r = (of_bool x + of_bool y + of_bool carry :: nat);
          s \<leftarrow> setBitOfWord result k (toBit r) s;
          Some (r div 2 = 1, s) }) (False, s) = Some (c, s(result := s op1 + s op2 + of_bool False))"
    by auto
  then show ?thesis by (simp add: addWord_def)
qed

lemma subWord_eq: "subWord result op1 op2 s = Some (s(result := s op1 - s op2))"
proof -
  have "bit (NOT (s op2)) i = notBit (bit (s op2) i)" if "i < 32" for i
    using that by (simp add: bit_not_iff notBit_def)
  from ripple_loop [of "NOT (s op2)" notBit s op2 op1 result True, OF this]
  obtain c where "for_up 0 wordtopbit (\<lambda>k (carry, s). do {
          x \<leftarrow> getBitOfWord op1 k s;
          y \<leftarrow> getBitOfWord op2 k s;
          let r = (of_bool x + of_bool (notBit y) + of_bool carry :: nat);
          s \<leftarrow> setBitOfWord result k (toBit r) s;
          Some (r div 2 = 1, s) }) (True, s) = Some (c, s(result := s op1 + NOT (s op2) + of_bool True))"
    by auto
  moreover have "s op1 + NOT (s op2) + 1 = s op1 - s op2"
    by (simp add: not_eq_complement)
  ultimately show ?thesis by (simp add: subWord_def)
qed

lemma negativeWord_eq: "negativeWord result opd s = Some (s(result := s ZeroWord - s opd))"
  by (simp add: negativeWord_def subWord_eq)

lemma notWord_eq: "notWord result opd s = Some (s(result := NOT (s opd)))"
proof -
  let ?body = "\<lambda>b s. do { t \<leftarrow> getBitOfWord opd b s; setBitOfWord result b (notBit t) s }"
  let ?I = "\<lambda>k t. 0 \<le> k \<and> k \<le> 32 \<and> (\<forall>x. x \<noteq> result \<longrightarrow> t x = s x) \<and>
              (\<forall>i. bit (t result) i = (if i < nat k then \<not> bit (s result) i \<and> opd = result \<or> \<not> bit (s opd) i \<and> i < 32 else bit (s result) i))"
  have init: "?I 0 s" by simp
  have step: "\<exists>t'. ?body k t = Some t' \<and> ?I (k + 1) t'" if "0 \<le> k" "k \<le> 31" "?I k t" for k t
  proof -
    have rd: "bit (t opd) (nat k) = bit (s opd) (nat k)"
      using that by (cases "opd = result") auto
    have "?body k t = Some (t(result := (if \<not> bit (s opd) (nat k) then set_bit (nat k) (t result) else unset_bit (nat k) (t result))))"
      using that(1,2) rd by (simp add: getBitOfWord_in setBitOfWord_in notBit_def)
    moreover have "?I (k + 1) (t(result := (if \<not> bit (s opd) (nat k) then set_bit (nat k) (t result) else unset_bit (nat k) (t result))))"
      using that by (auto simp: bit_put_iff nat_add_distrib)
    ultimately show ?thesis by blast
  qed
  from for_up_rule [of ?I 0 s 31 ?body, OF init step]
  obtain t where t: "for_up 0 31 ?body s = Some t" "?I 32 t" by auto
  have "t result = NOT (s opd)"
    by (rule bit_eqI) (use t(2) in \<open>auto simp: bit_not_iff\<close>)
  then have "t = s(result := NOT (s opd))" using t(2) by auto
  then show ?thesis using t(1) by (simp add: notWord_def wordtopbit_def wordsize_def)
qed

lemma write_down:
  assumes rng: "\<And>b. lo \<le> b \<Longrightarrow> b \<le> hi \<Longrightarrow> 0 \<le> g b \<and> g b \<le> 31"
    and inv: "\<And>b. lo \<le> b \<Longrightarrow> b \<le> hi \<Longrightarrow> h (nat (g b)) = b"
    and body: "\<And>b t. lo \<le> b \<Longrightarrow> b \<le> hi \<Longrightarrow> (\<forall>x. x \<noteq> r \<longrightarrow> t x = s x) \<Longrightarrow>
                 body b t = setBitOfWord r (g b) (v b) t"
  shows "\<exists>w. for_down hi lo body s = Some (s(r := w)) \<and>
           (\<forall>i. bit w i = (if lo \<le> h i \<and> h i \<le> hi \<and> g (h i) = int i then v (h i) else bit (s r) i))"
proof -
  define P where "P k i \<longleftrightarrow> k < h i \<and> h i \<le> hi \<and> g (h i) = int i" for k i
  define I where "I k t \<longleftrightarrow> (\<forall>x. x \<noteq> r \<longrightarrow> t x = s x) \<and>
     (\<forall>i. bit (t r) i = (if P k i then v (h i) else bit (s r) i))" for k t
  have init: "I hi s" by (auto simp: I_def P_def)
  have step: "\<exists>t'. body k t = Some t' \<and> I (k - 1) t'" if "lo \<le> k" "k \<le> hi" "I k t" for k t
  proof -
    let ?w = "if v k then set_bit (nat (g k)) (t r) else unset_bit (nat (g k)) (t r)"
    have g: "0 \<le> g k" "g k \<le> 31" "h (nat (g k)) = k" using rng inv that(1,2) by auto
    have frame: "\<forall>x. x \<noteq> r \<longrightarrow> t x = s x" using that(3) by (simp add: I_def)
    have old: "bit (t r) i = (if P k i then v (h i) else bit (s r) i)" for i
      using that(3) by (simp add: I_def)
    have run: "body k t = Some (t(r := ?w))"
      using body [OF that(1,2) frame] g by (simp add: setBitOfWord_in)
    have new: "bit ?w i = (if P (k - 1) i then v (h i) else bit (s r) i)" for i
    proof (cases "i = nat (g k)")
      case True
      then have "P (k - 1) i" using g that(2) by (simp add: P_def)
      then show ?thesis using True g by (simp add: bit_put_iff)
    next
      case False
      have "P (k - 1) i \<longleftrightarrow> P k i"
      proof (cases "g (h i) = int i")
        case True
        then have "h i \<noteq> k" using False by auto
        then have "k - 1 < h i \<longleftrightarrow> k < h i" by arith
        then show ?thesis by (simp add: P_def)
      next
        case False
        then show ?thesis by (simp add: P_def)
      qed
      then show ?thesis using False g old [of i] by (simp add: bit_put_iff)
    qed
    have "I (k - 1) (t(r := ?w))"
      unfolding I_def using frame new by simp
    with run show ?thesis by blast
  qed
  from for_down_rule [of I hi s lo body, OF init step]
  obtain t where t: "for_down hi lo body s = Some t" "I (min hi (lo - 1)) t" by blast
  have frame: "\<And>x. x \<noteq> r \<Longrightarrow> t x = s x" using t(2) by (simp add: I_def)
  have "t = s(r := t r)"
  proof
    fix x show "t x = (s(r := t r)) x" using frame [of x] by (cases "x = r") simp_all
  qed
  moreover have "P (min hi (lo - 1)) i \<longleftrightarrow> (lo \<le> h i \<and> h i \<le> hi \<and> g (h i) = int i)" for i
    unfolding P_def by (cases "hi \<le> lo - 1") (simp_all add: min_def, arith+)
  then have "\<forall>i. bit (t r) i = (if lo \<le> h i \<and> h i \<le> hi \<and> g (h i) = int i then v (h i) else bit (s r) i)"
    using t(2) by (simp add: I_def)
  ultimately show ?thesis using t(1) by metis
qed

section \<open>Logical shift as \<open>push_bit\<close> and \<open>drop_bit\<close>\<close>

lemma c_abs_small: "\<bar>n\<bar> \<le> 32 \<Longrightarrow> c_abs n = Some \<bar>n\<bar>"
  by (auto simp: c_abs_def)

lemma lshWord_left:
  assumes c: "0 \<le> c" "c \<le> 31" and r: "result \<noteq> Lsh_localop"
  shows "lshWord result opd c s = Some ((s(Lsh_localop := s opd))(result := push_bit (nat c) (s opd)))"
proof -
  define s1 where "s1 = s(Lsh_localop := s opd)"
  have s1: "s1 Lsh_localop = s opd" by (simp add: s1_def)
  from write_down [of c 31 "\<lambda>b. b" "\<lambda>i. int i" result s1
      "\<lambda>b s. do { t \<leftarrow> getBitOfWord Lsh_localop (b - c) s; setBitOfWord result b t s }"
      "\<lambda>b. bit (s opd) (nat (b - c))"]
  obtain w1 where w1: "for_down 31 c (\<lambda>b s. do { t \<leftarrow> getBitOfWord Lsh_localop (b - c) s; setBitOfWord result b t s }) s1
        = Some (s1(result := w1))"
     "\<And>i. bit w1 i = (if c \<le> int i \<and> int i \<le> 31 then bit (s opd) (nat (int i - c)) else bit (s1 result) i)"
    using c r s1 by (auto simp: getBitOfWord_in)
  define s2 where "s2 = s1(result := w1)"
  from write_down [of 0 "c - 1" "\<lambda>b. b" "\<lambda>i. int i" result s2
      "\<lambda>b s. setBitOfWord result b False s" "\<lambda>b. False"]
  obtain w2 where w2: "for_down (c - 1) 0 (\<lambda>b s. setBitOfWord result b False s) s2 = Some (s2(result := w2))"
     "\<And>i. bit w2 i = (if int i \<le> c - 1 then False else bit (s2 result) i)"
    using c by auto
  have "w2 = push_bit (nat c) (s opd)"
  proof (rule bit_eqI)
    fix i assume "possible_bit TYPE(32 word) i"
    then have i: "i < 32" by simp
    show "bit w2 i = bit (push_bit (nat c) (s opd)) i"
      using i c by (auto simp: w2(2) s2_def w1(2) bit_push_bit_iff nat_diff_distrib nat_le_iff)
  qed
  then have "s2(result := w2) = (s(Lsh_localop := s opd))(result := push_bit (nat c) (s opd))"
    by (simp add: s2_def s1_def)
  then show ?thesis
    using c w1(1) w2(1)
    by (simp add: lshWord_def c_abs_small wordsize_def wordtopbit_def setWord_def s1_def [symmetric] s2_def [symmetric])
qed

lemma lshWord_right:
  assumes c: "0 < c" "c \<le> 31" and r: "result \<noteq> Lsh_localop"
  shows "lshWord result opd (- c) s = Some ((s(Lsh_localop := s opd))(result := drop_bit (nat c) (s opd)))"
proof -
  define s1 where "s1 = s(Lsh_localop := s opd)"
  have s1: "s1 Lsh_localop = s opd" by (simp add: s1_def)
  from write_down [of c 31 "\<lambda>b. b - c" "\<lambda>i. int i + c" result s1
      "\<lambda>b s. do { t \<leftarrow> getBitOfWord Lsh_localop b s; setBitOfWord result (b - c) t s }"
      "\<lambda>b. bit (s opd) (nat b)"]
  obtain w1 where w1: "for_down 31 c (\<lambda>b s. do { t \<leftarrow> getBitOfWord Lsh_localop b s; setBitOfWord result (b - c) t s }) s1
        = Some (s1(result := w1))"
     "\<And>i. bit w1 i = (if int i + c \<le> 31 then bit (s opd) (nat (int i + c)) else bit (s1 result) i)"
    using c r s1 by (auto simp: getBitOfWord_in)
  define s2 where "s2 = s1(result := w1)"
  from write_down [of 0 "c - 1" "\<lambda>b. 31 - b" "\<lambda>i. 31 - int i" result s2
      "\<lambda>b s. setBitOfWord result (31 - b) False s" "\<lambda>b. False"]
  obtain w2 where w2: "for_down (c - 1) 0 (\<lambda>b s. setBitOfWord result (31 - b) False s) s2 = Some (s2(result := w2))"
     "\<And>i. bit w2 i = (if 0 \<le> 31 - int i \<and> 31 - int i \<le> c - 1 then False else bit (s2 result) i)"
    using c by auto
  have "w2 = drop_bit (nat c) (s opd)"
  proof (rule bit_eqI)
    fix i assume "possible_bit TYPE(32 word) i"
    then have i: "i < 32" by simp
    have "\<not> bit (s opd) (nat c + i)" if "31 - int i \<le> c - 1"
      using that c bit_imp_le_length [of "s opd" "nat c + i"] by auto
    then show "bit w2 i = bit (drop_bit (nat c) (s opd)) i"
      using i c by (auto simp: w2(2) s2_def w1(2) bit_drop_bit_eq nat_add_distrib add.commute)
  qed
  then have "s2(result := w2) = (s(Lsh_localop := s opd))(result := drop_bit (nat c) (s opd))"
    by (simp add: s2_def s1_def)
  then show ?thesis
    using c w1(1) w2(1)
    by (simp add: lshWord_def c_abs_small wordsize_def wordtopbit_def setWord_def s1_def [symmetric] s2_def [symmetric])
qed

section \<open>Facts about 32-bit values\<close>

lemma sint_mod_add:
  "sint (a + b :: 32 word) mod 2 ^ 32 = (sint a + sint b) mod 2 ^ 32"
proof -
  have "take_bit 32 (sint (a + b)) = take_bit 32 (sint a + sint b)"
    by (simp add: sint_word_ariths take_bit_signed_take_bit)
  then show ?thesis by (simp add: take_bit_eq_mod)
qed

lemma neg_minWord: "- minWord = minWord"
  by (simp add: minWord_def)

lemma not_minWord_plus_1: "NOT minWord + 1 = minWord"
  by (simp add: minWord_def)

section \<open>The multiplier\<close>

lemma word_halves: "push_bit 1 (a :: 32 word) * drop_bit 1 b + of_bool (bit b 0) * a = a * b"
proof -
  have "b = 2 * (b div 2) + of_bool (odd b)"
    by (simp add: of_bool_odd_eq_mod_2 mult_div_mod_eq)
  then have "a * b = a * (2 * (b div 2) + of_bool (odd b))" by simp
  also have "\<dots> = push_bit 1 a * drop_bit 1 b + of_bool (bit b 0) * a"
    by (simp add: push_bit_eq_mult drop_bit_eq_div bit_0 algebra_simps)
  finally show ?thesis by simp
qed

lemma unat_drop_bit_1_less:
  "unat (b :: 32 word) < 2 ^ Suc m \<Longrightarrow> unat (drop_bit 1 b) < 2 ^ m"
proof -
  assume "unat b < 2 ^ Suc m"
  then have "unat b div 2 < 2 ^ m" by simp
  moreover have "unat (drop_bit 1 b) = unat b div 2"
    by (simp add: drop_bit_eq_div unat_div)
  ultimately show ?thesis by simp
qed

lemma mulWord_loop_eq:
  assumes "result \<noteq> Mul_localop1" "result \<noteq> Mul_localop2" "result \<noteq> Lsh_localop"
    and "unat (s Mul_localop2) < 2 ^ n"
  shows "\<exists>s'. mulWord_loop n result s = Some s'
           \<and> s' result = s result + s Mul_localop1 * s Mul_localop2
           \<and> s' Mul_localop2 = 0
           \<and> mul_frame result s s'"
  using assms(4)
proof (induction n arbitrary: s)
  case 0
  then have "s Mul_localop2 = 0" by (simp add: unat_eq_0)
  then show ?case
    by (subst mulWord_loop.simps) (simp add: testEqWord_eq mul_frame_def)
next
  case (Suc m)
  show ?case
  proof (cases "s Mul_localop2 = 0")
    case True
    then show ?thesis
      by (subst mulWord_loop.simps) (simp add: testEqWord_eq mul_frame_def)
  next
    case False
    define t where "t = bit (s Mul_localop2) 0"
    define s1 where "s1 = (if t then s(result := s result + s Mul_localop1) else s)"
    define s2 where "s2 = (s1(Lsh_localop := s1 Mul_localop1))(Mul_localop1 := push_bit 1 (s1 Mul_localop1))"
    define s3 where "s3 = (s2(Lsh_localop := s2 Mul_localop2))(Mul_localop2 := drop_bit 1 (s2 Mul_localop2))"
    have v1: "s1 Mul_localop1 = s Mul_localop1" "s1 Mul_localop2 = s Mul_localop2"
      "s1 result = s result + of_bool t * s Mul_localop1"
      using assms(1,2) by (auto simp: s1_def)
    have v3: "s3 Mul_localop1 = push_bit 1 (s Mul_localop1)"
      "s3 Mul_localop2 = drop_bit 1 (s Mul_localop2)"
      "s3 result = s result + of_bool t * s Mul_localop1"
      using assms(1,2,3) v1 by (auto simp: s3_def s2_def)
    have fr: "mul_frame result s s3"
      by (auto simp: mul_frame_def s3_def s2_def s1_def)
    have unf: "mulWord_loop (Suc m) result s = mulWord_loop m result s3"
      using False
      by (subst mulWord_loop.simps)
         (simp add: testEqWord_eq getBitOfWord_in addWord_eq lshWord_left lshWord_right [of 1, simplified]
            t_def [symmetric] s1_def s2_def s3_def)
    have "unat (s3 Mul_localop2) < 2 ^ m"
      using unat_drop_bit_1_less [OF Suc.prems] by (simp only: v3)
    from Suc.IH [of s3, OF this]
    obtain s' where s': "mulWord_loop m result s3 = Some s'"
      "s' result = s3 result + s3 Mul_localop1 * s3 Mul_localop2"
      "s' Mul_localop2 = 0" "mul_frame result s3 s'" by blast
    have "s' result = s result + s Mul_localop1 * s Mul_localop2"
      using word_halves [of "s Mul_localop1" "s Mul_localop2"]
      by (simp add: s'(2) v3 t_def add.assoc add.commute)
    moreover have "mul_frame result s s'"
      using fr s'(4) by (simp add: mul_frame_def)
    ultimately show ?thesis using unf s'(1,3) by simp
  qed
qed

lemma readable_not_local:
  assumes "readable a"
  shows "a \<noteq> Ash_localop" "a \<noteq> Csh_localop" "a \<noteq> Lsh_localop"
    "a \<noteq> Mul_localop1" "a \<noteq> Mul_localop2" "a \<noteq> Mul_one"
    "a \<noteq> Div2_w1" "a \<noteq> Div2_w2" "a \<noteq> Div2_test" "a \<noteq> Div_remainder" "a \<noteq> Rem_quotient"
  using assms by (cases a; simp)+

lemma mag_mult_sign:
  "(if bit a 31 \<noteq> bit b 31 then - (mag a * mag b) else mag a * mag b) = a * b"
  by (simp add: mag_def)

lemma mulWord_unfold:
  assumes z: "s ZeroWord = 0" and r1: "readable op1" and r2: "readable op2"
  shows "mulWord fuel (Caller i) op1 op2 s =
     mulWord_loop fuel (Caller i)
        (s(Mul_localop1 := mag (s op1), Mul_localop2 := mag (s op2), Caller i := 0, Mul_one := 1)) \<bind>
     (\<lambda>t. if bit (s op1) 31 \<noteq> bit (s op2) 31
          then Some (t(Caller i := NOT (t (Caller i)) + t Mul_one)) else Some t)"
proof -
  note n1 = readable_not_local [OF r1] and n2 = readable_not_local [OF r2]
  have one: "set_bit 0 (0 :: 32 word) = 1" by (simp add: set_bit_eq_or)
  have neg: "NOT w + 1 = - w" for w :: "32 word" by (simp add: minus_eq_not_plus_1)
  show ?thesis
    using z n1 n2
    by (simp add: mulWord_def setWord_def Let_def getBitOfWord_in setBitOfWord_in notWord_eq addWord_eq
        one neg mag_def fun_upd_twist cong: if_cong)
qed

lemma mulWord_eq:
  assumes z: "s ZeroWord = 0" and r1: "readable op1" and r2: "readable op2"
  shows "\<exists>s'. mulWord 32 (Caller i) op1 op2 s = Some s'
           \<and> s' (Caller i) = s op1 * s op2
           \<and> (\<forall>x. readable x \<and> x \<noteq> Caller i \<longrightarrow> s' x = s x)"
proof -
  define pre where "pre = s(Mul_localop1 := mag (s op1), Mul_localop2 := mag (s op2), Caller i := 0, Mul_one := 1)"
  have "unat (pre Mul_localop2) < 2 ^ 32"
    using unsigned_less [of "pre Mul_localop2", where 'a = nat] by simp
  from mulWord_loop_eq [of "Caller i" pre 32, OF _ _ _ this]
  obtain t where t: "mulWord_loop 32 (Caller i) pre = Some t"
    "t (Caller i) = pre (Caller i) + pre Mul_localop1 * pre Mul_localop2"
    "mul_frame (Caller i) pre t" by auto
  have prod: "t (Caller i) = mag (s op1) * mag (s op2)"
    using t(2) by (simp add: pre_def)
  have one: "t Mul_one = 1" using t(3) by (simp add: mul_frame_def pre_def)
  have fr: "t x = s x" if "readable x" "x \<noteq> Caller i" for x
    using t(3) that readable_not_local [OF that(1)] by (simp add: mul_frame_def pre_def)
  have neg: "NOT w + 1 = - w" for w :: "32 word" by (simp add: minus_eq_not_plus_1)
  show ?thesis
  proof (cases "bit (s op1) 31 \<noteq> bit (s op2) 31")
    case True
    then have "mulWord 32 (Caller i) op1 op2 s = Some (t(Caller i := - (mag (s op1) * mag (s op2))))"
      using t(1) by (simp add: mulWord_unfold [of s op1 op2 32 i, OF z r1 r2] pre_def [symmetric] one neg prod)
    moreover have "- (mag (s op1) * mag (s op2)) = s op1 * s op2"
      using mag_mult_sign [of "s op1" "s op2"] True by simp
    ultimately show ?thesis using fr by simp
  next
    case False
    then have "mulWord 32 (Caller i) op1 op2 s = Some t"
      using t(1) by (simp add: mulWord_unfold [of s op1 op2 32 i, OF z r1 r2] pre_def [symmetric])
    moreover have "mag (s op1) * mag (s op2) = s op1 * s op2"
      using mag_mult_sign [of "s op1" "s op2"] False by simp
    ultimately show ?thesis using fr prod by simp
  qed
qed

lemma mulWord_loop_zero:
  "\<exists>s'. mulWord_loop 32 (Caller i) s = Some s' \<and> s' Mul_localop2 = 0"
proof -
  have "unat (s Mul_localop2) < 2 ^ 32"
    using unsigned_less [of "s Mul_localop2", where 'a = nat] by simp
  from mulWord_loop_eq [of "Caller i" s 32, OF _ _ _ this] show ?thesis by auto
qed

section \<open>Arithmetic of one restoring-division step\<close>

lemma unat_lt_2p32: "unat (w :: 32 word) < 4294967296"
  using unsigned_less [of w, where 'a = nat] by simp

lemma unat_2p32: "n < 32 \<Longrightarrow> unat (2 ^ n :: 32 word) = 2 ^ n"
proof -
  assume n: "n < 32"
  have "unat (push_bit n (1 :: 32 word)) = take_bit 32 (push_bit n (1::nat))"
    by (simp only: unsigned_push_bit_eq unsigned_1 len_num1 len_bit0 mult_num_simps numeral_times_numeral) simp
  also have "\<dots> = 2 ^ n"
    using n by (simp add: take_bit_nat_eq_self)
  finally show ?thesis by simp
qed

lemma half_div: "unat (w::32 word) div 2147483648 = (if 2147483648 \<le> unat w then 1 else 0)"
proof -
  define q r where "q = unat w div 2147483648" and "r = unat w mod 2147483648"
  have lt: "unat w < 4294967296" using unsigned_less [of w, where 'a = nat] by simp
  have eq: "unat w = 2147483648 * q + r" by (simp add: q_def r_def)
  have r: "r < 2147483648" by (simp add: r_def)
  have "q = (if 2147483648 \<le> unat w then 1 else 0)"
    using lt eq r by (cases "q = 0"; cases "q = 1") auto
  then show ?thesis by (simp only: q_def)
qed

lemma bit31_iff: "bit (w :: 32 word) 31 \<longleftrightarrow> 2147483648 \<le> unat w"
proof -
  have "bit w 31 \<longleftrightarrow> bit (unat w) 31"
    by (simp only: bit_unsigned_iff) simp
  also have "\<dots> \<longleftrightarrow> odd (unat w div 2 ^ 31)"
    by (rule bit_iff_odd)
  finally have "bit w 31 \<longleftrightarrow> odd (unat w div 2 ^ 31)" .
  then show ?thesis by (simp add: half_div)
qed

lemma unat_shift_in:
  assumes "unat (R :: 32 word) < 2147483648"
  shows "unat (if t then set_bit 0 (push_bit 1 R) else unset_bit 0 (push_bit 1 R)) = 2 * unat R + of_bool t"
proof -
  have even: "\<not> bit (push_bit 1 R) 0" by (simp only: bit_push_bit_iff) simp
  have dbl: "unat (push_bit 1 R) = 2 * unat R"
    using assms by (simp add: push_bit_eq_mult unat_word_ariths)
  have "unat (push_bit 1 R + 1) = 2 * unat R + 1"
    using assms dbl by (simp add: unat_word_ariths)
  then show ?thesis
    using even dbl by (cases t) (simp_all add: set_bit_eq unset_bit_eq)
qed

lemma trial_subtract:
  assumes "unat (D :: 32 word) \<le> 2147483648" and "unat R1 < 2 * unat D"
  shows "\<not> bit (R1 - D) 31 \<longleftrightarrow> unat D \<le> unat R1"
    and "unat D \<le> unat R1 \<Longrightarrow> unat (R1 - D) = unat R1 - unat D"
  using assms unat_lt_2p32 [of R1]
  by (auto simp: bit31_iff unat_sub_if_size word_size)

lemma div_step_nat:
  fixes D X bv x :: nat
  assumes "0 < D" and "bv \<le> 1" and x_def: "x = 2 * (X mod D) + bv"
  shows "(2 * X + bv) mod D = (if D \<le> x then x - D else x)"
    and "(2 * X + bv) div D = 2 * (X div D) + (if D \<le> x then 1 else 0)"
proof -
  have xlt: "x < 2 * D" using assms(1,2) mod_less_divisor [of D X] unfolding x_def by linarith
  define q r where "q = X div D" and "r = X mod D"
  have "X = D * q + r" by (simp add: q_def r_def)
  then have "2 * X + bv = D * (2 * q) + (2 * r + bv)" by (simp add: algebra_simps)
  then have split: "2 * X + bv = D * (2 * (X div D)) + x"
    by (simp only: x_def q_def r_def)
  have m: "(2 * X + bv) mod D = x mod D" unfolding split by (rule mod_mult_self4)
  have d: "(2 * X + bv) div D = 2 * (X div D) + x div D"
    unfolding split using assms(1) by (intro div_mult_self4) simp
  have xs: "x mod D = (if D \<le> x then x - D else x) \<and> x div D = (if D \<le> x then 1 else 0)"
  proof (cases "D \<le> x")
    case True
    then have lt: "x - D < D" using xlt by linarith
    have "x mod D = (x - D) mod D" using True by (rule le_mod_geq)
    moreover have "x div D = Suc ((x - D) div D)" using assms(1) True by (rule le_div_geq)
    ultimately show ?thesis using True lt by simp
  next
    case False
    then show ?thesis by simp
  qed
  show "(2 * X + bv) mod D = (if D \<le> x then x - D else x)" using m xs by simp
  show "(2 * X + bv) div D = 2 * (X div D) + (if D \<le> x then 1 else 0)" using d xs by simp
qed

lemma unat_set_quotient_bit:
  assumes "unat (Q :: 32 word) = q * 2 ^ Suc n" and "(2 * q + 1) * 2 ^ n < (4294967296 :: nat)"
  shows "unat (set_bit n Q) = (2 * q + 1) * 2 ^ n"
proof -
  have "bit (unat Q) n \<longleftrightarrow> odd (unat Q div 2 ^ n)"
    by (rule bit_iff_odd)
  then have "\<not> bit (unat Q) n" by (simp add: assms(1))
  then have nb: "\<not> bit Q n" by (simp only: bit_unsigned_iff) simp
  have n: "n < 32"
  proof (rule ccontr)
    assume "\<not> n < 32"
    then have "(2 :: nat) ^ 32 \<le> 2 ^ n" by (intro power_increasing) auto
    moreover have "(2 :: nat) ^ n \<le> (2 * q + 1) * 2 ^ n" by simp
    moreover have "(2 :: nat) ^ 32 = 4294967296" by simp
    ultimately show False using assms(2) by linarith
  qed
  have p: "unat (2 ^ n :: 32 word) = 2 ^ n" using n by (rule unat_2p32)
  have e: "q * 2 ^ Suc n + 2 ^ n = (2 * q + 1) * (2 ^ n :: nat)" by (simp add: algebra_simps)
  have "unat Q + unat (2 ^ n :: 32 word) < 2 ^ LENGTH(32)"
    using assms(2) by (simp only: assms(1) p e) simp
  then have "unat (Q + 2 ^ n) = unat Q + unat (2 ^ n :: 32 word)"
    by (simp only: unat_add_lem)
  then have "unat (Q + 2 ^ n) = (2 * q + 1) * 2 ^ n"
    by (simp only: assms(1) p e)
  moreover have "set_bit n Q = Q + 2 ^ n" using nb by (simp add: set_bit_eq)
  ultimately show ?thesis by (simp only:)
qed


section \<open>The divider\<close>

lemma div2Word_step_eq:
  assumes b: "0 \<le> b" "b \<le> 31"
    and d: "result \<noteq> remainder"
      "result \<noteq> Lsh_localop" "result \<noteq> Div2_w1" "result \<noteq> Div2_w2" "result \<noteq> Div2_test"
      "remainder \<noteq> Lsh_localop" "remainder \<noteq> Div2_w1" "remainder \<noteq> Div2_w2" "remainder \<noteq> Div2_test"
  shows "div2Word_step result remainder b s =
     Some (if \<not> bit (div_step_val (s remainder) (s Div2_w2) (bit (s Div2_w1) (nat b))) 31
           then s(Lsh_localop := s remainder,
                  Div2_test := div_step_val (s remainder) (s Div2_w2) (bit (s Div2_w1) (nat b)),
                  result := set_bit (nat b) (s result),
                  remainder := div_step_val (s remainder) (s Div2_w2) (bit (s Div2_w1) (nat b)))
           else s(Lsh_localop := s remainder,
                  remainder := div_step_val (s remainder) (s Div2_w2) (bit (s Div2_w1) (nat b)) + s Div2_w2,
                  Div2_test := div_step_val (s remainder) (s Div2_w2) (bit (s Div2_w1) (nat b))))"
  using b d
  by (auto simp: div2Word_step_def lshWord_left [of 1, simplified] getBitOfWord_in setBitOfWord_in
      subWord_eq testGeWord_eq setWord_def div_step_val_def fun_upd_twist)

lemma nat_div_2p_Suc:
  "(W :: nat) div 2 ^ n = 2 * (W div 2 ^ Suc n) + of_bool (bit W n)"
proof -
  have "W div (2 ^ n * 2) = (W div 2 ^ n) div 2"
    by (rule div_mult2_eq)
  then have "W div 2 ^ Suc n = (W div 2 ^ n) div 2"
    by (simp only: power_Suc mult.commute)
  moreover have "of_bool (bit W n) = (W div 2 ^ n) mod 2"
    by (simp add: bit_iff_odd of_bool_odd_eq_mod_2)
  ultimately show ?thesis by simp
qed

lemma div_step_arith:
  fixes W1 Dw R Q :: "32 word"
  assumes D: "Dw \<noteq> 0" "unat Dw \<le> 2147483648"
    and R: "unat R = (unat W1 div 2 ^ Suc n) mod unat Dw"
    and Q: "unat Q = (unat W1 div 2 ^ Suc n) div unat Dw * 2 ^ Suc n"
  defines "T \<equiv> div_step_val R Dw (bit W1 n)"
  shows "\<not> bit T 31 \<Longrightarrow> unat T = (unat W1 div 2 ^ n) mod unat Dw"
    and "\<not> bit T 31 \<Longrightarrow> unat (set_bit n Q) = (unat W1 div 2 ^ n) div unat Dw * 2 ^ n"
    and "bit T 31 \<Longrightarrow> unat (T + Dw) = (unat W1 div 2 ^ n) mod unat Dw"
    and "bit T 31 \<Longrightarrow> unat Q = (unat W1 div 2 ^ n) div unat Dw * 2 ^ n"
proof -
  define W D X' bv where "W = unat W1" and "D = unat Dw" and "X' = W div 2 ^ Suc n"
    and "bv = (of_bool (bit W1 n) :: nat)"
  define R1 where "R1 = (if bit W1 n then set_bit 0 (push_bit 1 R) else unset_bit 0 (push_bit 1 R))"
  define x where "x = 2 * (X' mod D) + bv"
  have Dpos: "0 < D" using D(1) by (simp add: D_def unat_gt_0)
  have Dle: "D \<le> 2147483648" using D(2) by (simp add: D_def)
  have bv: "bv \<le> 1" by (simp add: bv_def)
  have bvW: "bv = of_bool (bit W n)"
    by (simp add: bv_def W_def bit_unsigned_iff)
  have X: "W div 2 ^ n = 2 * X' + bv"
    unfolding X'_def bvW by (rule nat_div_2p_Suc)
  have Rlt: "unat R < D" using R Dpos by (simp add: D_def)
  then have "unat R < 2147483648" using Dle by linarith
  from unat_shift_in [OF this, of "bit W1 n"]
  have R1: "unat R1 = x"
    using R by (simp add: R1_def x_def X'_def W_def D_def bv_def)
  have T: "T = R1 - Dw" by (simp add: T_def div_step_val_def R1_def)
  have xlt: "unat R1 < 2 * unat Dw"
    using Rlt bv R by (simp add: R1 x_def X'_def W_def D_def)
  note ts = trial_subtract [OF D(2) xlt]
  note ds = div_step_nat [OF Dpos bv x_def]
  have Xle: "(W div 2 ^ n) div D * 2 ^ n < 4294967296"
  proof -
    have "(W div 2 ^ n) div D * 2 ^ n \<le> (W div 2 ^ n) * 2 ^ n"
      by (intro mult_right_mono) (simp_all add: div_le_dividend)
    also have "\<dots> \<le> W" by (simp add: div_times_less_eq_dividend)
    also have "\<dots> < 4294967296" unfolding W_def by (rule unat_lt_2p32)
    finally show ?thesis .
  qed
  {
    assume nb: "\<not> bit T 31"
    then have ge: "D \<le> x" using ts(1) by (simp add: T R1 D_def)
    then have "unat T = x - D" using ts(2) by (simp add: T R1 D_def)
    then show "unat T = (unat W1 div 2 ^ n) mod unat Dw"
      using ds(1) ge X by (simp add: W_def D_def)
    have dv: "(W div 2 ^ n) div D = 2 * (X' div D) + 1" using ds(2) ge X by simp
    have "unat (set_bit n Q) = (2 * (X' div D) + 1) * 2 ^ n"
    proof (rule unat_set_quotient_bit)
      show "unat Q = X' div D * 2 ^ Suc n" using Q by (simp add: X'_def W_def D_def)
      show "(2 * (X' div D) + 1) * 2 ^ n < 4294967296" using Xle by (simp only: dv)
    qed
    then show "unat (set_bit n Q) = (unat W1 div 2 ^ n) div unat Dw * 2 ^ n"
      using dv by (simp only: W_def D_def)
  }
  {
    assume b: "bit T 31"
    then have lt: "\<not> D \<le> x" using ts(1) by (simp add: T R1 D_def)
    have "T + Dw = R1" by (simp add: T)
    then show "unat (T + Dw) = (unat W1 div 2 ^ n) mod unat Dw"
      using ds(1) lt X R1 by (simp add: W_def D_def)
    have dv: "(W div 2 ^ n) div D = 2 * (X' div D)" using ds(2) lt X by simp
    have "unat Q = X' div D * 2 ^ Suc n" using Q by (simp add: X'_def W_def D_def)
    then show "unat Q = (unat W1 div 2 ^ n) div unat Dw * 2 ^ n"
      using dv by (simp add: W_def D_def)
  }
qed

lemma div_inv_step:
  assumes k: "0 \<le> k" "k \<le> 31"
    and d: "result \<noteq> remainder"
      "result \<noteq> Lsh_localop" "result \<noteq> Div2_w1" "result \<noteq> Div2_w2" "result \<noteq> Div2_test"
      "remainder \<noteq> Lsh_localop" "remainder \<noteq> Div2_w1" "remainder \<noteq> Div2_w2" "remainder \<noteq> Div2_test"
    and D: "s Div2_w2 \<noteq> 0" "unat (s Div2_w2) \<le> 2147483648"
    and inv: "div_inv result remainder s k t"
  shows "\<exists>t'. div2Word_step result remainder k t = Some t' \<and> div_inv result remainder s (k - 1) t'"
proof -
  define n where "n = nat k"
  have n: "nat (k + 1) = Suc n" "nat (k - 1 + 1) = n" "nat k = n" using k by (auto simp: n_def)
  from inv have fr: "div_frame result remainder s t"
    and R: "unat (t remainder) = (unat (s Div2_w1) div 2 ^ Suc n) mod unat (s Div2_w2)"
    and Q: "unat (t result) = (unat (s Div2_w1) div 2 ^ Suc n) div unat (s Div2_w2) * 2 ^ Suc n"
    by (simp_all add: div_inv_def n)
  have w: "t Div2_w1 = s Div2_w1" "t Div2_w2 = s Div2_w2"
    using fr d by (simp_all add: div_frame_def)
  define T where "T = div_step_val (t remainder) (s Div2_w2) (bit (s Div2_w1) n)"
  note ar = div_step_arith [OF D R Q, folded T_def]
  show ?thesis
  proof (cases "bit T 31")
    case False
    define t' where "t' = t(Lsh_localop := t remainder, Div2_test := T,
                  result := set_bit n (t result), remainder := T)"
    have "div2Word_step result remainder k t = Some t'"
      using False by (simp add: div2Word_step_eq [OF k d] w n T_def [symmetric] t'_def)
    moreover have "div_inv result remainder s (k - 1) t'"
      using k fr d ar(1,2) [OF False]
      by (simp add: div_inv_def n t'_def div_frame_def)
    ultimately show ?thesis by blast
  next
    case True
    define t' where "t' = t(Lsh_localop := t remainder, remainder := T + s Div2_w2, Div2_test := T)"
    have "div2Word_step result remainder k t = Some t'"
      using True by (simp add: div2Word_step_eq [OF k d] w n T_def [symmetric] t'_def)
    moreover have "div_inv result remainder s (k - 1) t'"
      using k fr d ar(3,4) [OF True]
      by (simp add: div_inv_def n t'_def div_frame_def)
    ultimately show ?thesis by blast
  qed
qed

lemma div2Word_loop_eq:
  assumes d: "result \<noteq> remainder"
      "result \<noteq> Lsh_localop" "result \<noteq> Div2_w1" "result \<noteq> Div2_w2" "result \<noteq> Div2_test"
      "remainder \<noteq> Lsh_localop" "remainder \<noteq> Div2_w1" "remainder \<noteq> Div2_w2" "remainder \<noteq> Div2_test"
    and init: "s result = 0" "s remainder = 0"
    and D: "s Div2_w2 \<noteq> 0" "unat (s Div2_w2) \<le> 2147483648"
  shows "\<exists>t. for_down wordtopbit 0 (div2Word_step result remainder) s = Some t
            \<and> t result = s Div2_w1 div s Div2_w2
            \<and> t remainder = s Div2_w1 mod s Div2_w2
            \<and> div_frame result remainder s t"
proof -
  have z: "unat (s Div2_w1) div 2 ^ 32 = 0"
    using unat_lt_2p32 [of "s Div2_w1"] by simp
  have init: "div_inv result remainder s 31 s"
    using init z by (simp add: div_inv_def div_frame_def)
  have step: "\<exists>t'. div2Word_step result remainder k t = Some t' \<and> div_inv result remainder s (k - 1) t'"
    if "0 \<le> k" "k \<le> 31" "div_inv result remainder s k t" for k t
    using that(1,2) d D that(3) by (rule div_inv_step)
  from for_down_rule [of "div_inv result remainder s" 31 s 0 "div2Word_step result remainder",
      OF init step]
  obtain t where t: "for_down 31 0 (div2Word_step result remainder) s = Some t"
    "div_inv result remainder s (- 1) t" by auto
  have "unat (t result) = unat (s Div2_w1 div s Div2_w2)"
    and "unat (t remainder) = unat (s Div2_w1 mod s Div2_w2)"
    using t(2) by (simp_all add: div_inv_def unat_div unat_mod)
  then have "t result = s Div2_w1 div s Div2_w2" "t remainder = s Div2_w1 mod s Div2_w2"
    by (simp_all only: word_unat_eq_iff)
  then show ?thesis using t by (auto simp: div_inv_def wordtopbit_def wordsize_def)
qed

lemma mag_nonzero: "B \<noteq> 0 \<Longrightarrow> mag B \<noteq> 0"
  by (simp add: mag_def)

lemma unat_mag_le: "unat (mag B) \<le> 2147483648"
proof (cases "bit B 31")
  case True
  then have "2147483648 \<le> unat B" by (simp add: bit31_iff)
  moreover have "unat (0 - B) = (if unat B \<le> unat (0 :: 32 word) then unat (0 :: 32 word) - unat B
      else unat (0 :: 32 word) + 2 ^ size (0 :: 32 word) - unat B)"
    by (rule unat_sub_if_size)
  ultimately have "unat (- B) = 4294967296 - unat B"
    by (simp add: word_size)
  then show ?thesis using True \<open>2147483648 \<le> unat B\<close> by (simp add: mag_def)
next
  case False
  then show ?thesis by (simp add: mag_def bit31_iff)
qed

lemma div2Word_unfold:
  assumes g: "globals_ok s" and ij: "i \<noteq> j" and r1: "readable op1" and r2: "readable op2"
    and B: "(s(Caller i := 0, Caller j := 0)) op2 \<noteq> 0"
  shows "div2Word (Caller i) (Caller j) op1 op2 s =
     for_down wordtopbit 0 (div2Word_step (Caller i) (Caller j))
       (s(Caller i := 0, Caller j := 0,
          Div2_w1 := mag ((s(Caller i := 0, Caller j := 0)) op1),
          Div2_w2 := mag ((s(Caller i := 0, Caller j := 0)) op2))) \<bind>
     (\<lambda>t. (if bit ((s(Caller i := 0, Caller j := 0)) op1) 31 \<noteq> bit ((s(Caller i := 0, Caller j := 0)) op2) 31
           then Some (t(Caller i := t ZeroWord - t (Caller i))) else Some t) \<bind>
     (\<lambda>t. if bit (t op1) 31 then Some (t(Caller j := t ZeroWord - t (Caller j))) else Some t))"
proof -
  note n1 = readable_not_local [OF r1] and n2 = readable_not_local [OF r2]
  have z: "s ZeroWord = 0" using g by (simp add: globals_ok_def zeroWord_def)
  show ?thesis
    using z n1 n2 ij B
    by (simp add: div2Word_def setWord_def Let_def testEqWord_eq testLtWord_eq negativeWord_eq
        mag_def fun_upd_twist cong: if_cong)
qed

lemma div2Word_nonzero:
  assumes g: "globals_ok s" and ij: "i \<noteq> j" and r1: "readable op1" and r2: "readable op2"
    and A: "A = (s(Caller i := 0, Caller j := 0)) op1"
    and B: "B = (s(Caller i := 0, Caller j := 0)) op2"
    and nz: "B \<noteq> 0"
  shows "\<exists>s'. div2Word (Caller i) (Caller j) op1 op2 s = Some s'
           \<and> s' (Caller i) = quot_val A B
           \<and> s' (Caller j) = rem_val A B
           \<and> (\<forall>x. readable x \<and> x \<noteq> Caller i \<and> x \<noteq> Caller j \<longrightarrow> s' x = s x)"
proof -
  note n1 = readable_not_local [OF r1] and n2 = readable_not_local [OF r2]
  have z: "s ZeroWord = 0" using g by (simp add: globals_ok_def zeroWord_def)
  define s2 where "s2 = s(Caller i := 0, Caller j := 0, Div2_w1 := mag A, Div2_w2 := mag B)"
  have s2: "s2 (Caller i) = 0" "s2 (Caller j) = 0" "s2 Div2_w1 = mag A" "s2 Div2_w2 = mag B"
    "s2 ZeroWord = 0"
    using ij z by (simp_all add: s2_def)
  have "\<exists>t. for_down wordtopbit 0 (div2Word_step (Caller i) (Caller j)) s2 = Some t
            \<and> t (Caller i) = s2 Div2_w1 div s2 Div2_w2
            \<and> t (Caller j) = s2 Div2_w1 mod s2 Div2_w2
            \<and> div_frame (Caller i) (Caller j) s2 t"
    using ij s2 mag_nonzero [OF nz] unat_mag_le [of B]
    by (intro div2Word_loop_eq) simp_all
  then obtain t where t: "for_down wordtopbit 0 (div2Word_step (Caller i) (Caller j)) s2 = Some t"
    "t (Caller i) = mag A div mag B" "t (Caller j) = mag A mod mag B"
    "div_frame (Caller i) (Caller j) s2 t"
    by (auto simp: s2)
  have fr: "t x = s x" if "readable x" "x \<noteq> Caller i" "x \<noteq> Caller j" for x
    using t(4) that readable_not_local [OF that(1)] by (simp add: div_frame_def s2_def)
  have tz: "t ZeroWord = 0" using fr [of ZeroWord] z by simp
  define t1 where "t1 = (if bit A 31 \<noteq> bit B 31 then t(Caller i := - t (Caller i)) else t)"
  have t1: "t1 (Caller i) = quot_val A B" "t1 (Caller j) = mag A mod mag B"
    "\<And>x. readable x \<Longrightarrow> x \<noteq> Caller i \<Longrightarrow> x \<noteq> Caller j \<Longrightarrow> t1 x = s x"
    using ij t(2,3) fr by (auto simp: t1_def quot_val_def)
  have sign: "bit (t1 op1) 31 = bit A 31"
  proof (cases "op1 = Caller i \<or> op1 = Caller j")
    case True
    then have "A = 0" using A ij by auto
    then have "quot_val A B = 0" "mag A mod mag B = 0" by (simp_all add: quot_val_def mag_def)
    then show ?thesis using True t1(1,2) \<open>A = 0\<close> by auto
  next
    case False
    then have "t1 op1 = s op1" using t1(3) r1 by simp
    moreover have "A = s op1" using A False by simp
    ultimately show ?thesis by simp
  qed
  define s' where "s' = (if bit A 31 then t1(Caller j := - t1 (Caller j)) else t1)"
  have k1: "(if bit A 31 \<noteq> bit B 31 then Some (t(Caller i := t ZeroWord - t (Caller i))) else Some t)
              = Some t1"
    by (simp add: t1_def tz)
  have k2: "(if bit (t1 op1) 31 then Some (t1(Caller j := t1 ZeroWord - t1 (Caller j))) else Some t1)
              = Some s'"
    using t1(3) [of ZeroWord] z by (simp add: s'_def sign)
  have "div2Word (Caller i) (Caller j) op1 op2 s =
     for_down wordtopbit 0 (div2Word_step (Caller i) (Caller j)) s2 \<bind>
     (\<lambda>t. (if bit A 31 \<noteq> bit B 31
           then Some (t(Caller i := t ZeroWord - t (Caller i))) else Some t) \<bind>
     (\<lambda>t. if bit (t op1) 31 then Some (t(Caller j := t ZeroWord - t (Caller j))) else Some t))"
    by (simp only: div2Word_unfold [OF g ij r1 r2 nz [unfolded B]] A B s2_def)
  then have "div2Word (Caller i) (Caller j) op1 op2 s = Some s'"
    by (simp only: t(1) bind.bind_lunit k1 k2)
  moreover have "s' (Caller i) = quot_val A B" "s' (Caller j) = rem_val A B"
    using ij t1(1,2) by (auto simp: s'_def rem_val_def)
  moreover have "\<forall>x. readable x \<and> x \<noteq> Caller i \<and> x \<noteq> Caller j \<longrightarrow> s' x = s x"
    using t1(3) by (simp add: s'_def)
  ultimately show ?thesis by blast
qed

lemma div2Word_zero:
  assumes g: "globals_ok s" and ij: "i \<noteq> j"
    and B: "(s(Caller i := 0, Caller j := 0)) op2 = 0"
  shows "div2Word (Caller i) (Caller j) op1 op2 s =
     Some (s(Caller j := 0,
             Caller i := (if \<not> bit ((s(Caller i := 0, Caller j := 0)) op1) 31 then maxWord else minWord)))"
proof -
  define s1 where "s1 = s(Caller i := 0, Caller j := 0)"
  have z: "s ZeroWord = 0" "s MaxWord = maxWord" "s MinWord = minWord"
    using g by (simp_all add: globals_ok_def zeroWord_def)
  have pre: "setWord (Caller j) ZeroWord (setWord (Caller i) ZeroWord s) = s1"
    using z by (simp add: setWord_def s1_def)
  have e: "testEqWord op2 s1 = Some True"
    unfolding s1_def using B by (simp only: testEqWord_eq simp_thms)
  have ge: "testGeWord op1 s1 = Some (\<not> bit (s1 op1) 31)" by (rule testGeWord_eq)
  have "div2Word (Caller i) (Caller j) op1 op2 s =
          Some (setWord (Caller i) (if \<not> bit (s1 op1) 31 then MaxWord else MinWord) s1)"
    unfolding div2Word_def Let_def pre by (simp add: e ge)
  also have "setWord (Caller i) (if \<not> bit (s1 op1) 31 then MaxWord else MinWord) s1
      = s(Caller j := 0, Caller i := (if \<not> bit (s1 op1) 31 then maxWord else minWord))"
    using z ij by (auto simp: setWord_def s1_def)
  finally show ?thesis by (simp only: s1_def)
qed

section \<open>Signs of quotient and remainder\<close>

lemma bit31_sint: "bit (w :: 32 word) 31 \<longleftrightarrow> sint w < 0"
  using bit_last_iff [of w] by simp

lemma mag_cases: "mag A = A \<and> \<not> bit A 31 \<or> mag A = - A \<and> bit A 31"
  by (simp add: mag_def)

lemma quot_rem_identity: "quot_val A B * B + rem_val A B = A"
proof -
  have id: "mag A div mag B * mag B + mag A mod mag B = mag A" by (rule div_mult_mod_eq)
  have nid: "- (mag A div mag B * mag B) - mag A mod mag B = - mag A"
    using arg_cong [OF id, of uminus] by simp
  show ?thesis
  proof (cases "bit A 31"; cases "bit B 31")
    assume "bit A 31" "bit B 31"
    then show ?thesis using nid by (simp add: quot_val_def rem_val_def mag_def)
  next
    assume "bit A 31" "\<not> bit B 31"
    then show ?thesis using nid by (simp add: quot_val_def rem_val_def mag_def)
  next
    assume "\<not> bit A 31" "bit B 31"
    then show ?thesis using id by (simp add: quot_val_def rem_val_def mag_def)
  next
    assume "\<not> bit A 31" "\<not> bit B 31"
    then show ?thesis using id by (simp add: quot_val_def rem_val_def mag_def)
  qed
qed

lemma unat_neg: "x \<noteq> 0 \<Longrightarrow> unat (- x :: 32 word) = 4294967296 - unat x"
proof -
  assume "x \<noteq> 0"
  then have "0 < unat x" by (simp add: unat_gt_0)
  moreover have "unat (0 - x) = (if unat x \<le> unat (0 :: 32 word) then unat (0 :: 32 word) - unat x
      else unat (0 :: 32 word) + 2 ^ size (0 :: 32 word) - unat x)"
    by (rule unat_sub_if_size)
  ultimately show ?thesis by (simp add: word_size)
qed

lemma bit31_neg: "x \<noteq> 0 \<Longrightarrow> unat x \<le> 2147483648 \<Longrightarrow> bit (- x :: 32 word) 31"
  by (simp add: bit31_iff unat_neg)

lemma rem_sign:
  assumes "B \<noteq> 0" and "rem_val A B \<noteq> 0"
  shows "bit (rem_val A B) 31 = bit A 31"
proof -
  have "0 < unat (mag B)" using mag_nonzero [OF assms(1)] by (simp add: unat_gt_0)
  then have "unat (mag A mod mag B) < unat (mag B)" by (simp add: unat_mod)
  then have lt: "unat (mag A mod mag B) < 2147483648" using unat_mag_le [of B] by linarith
  show ?thesis
  proof (cases "bit A 31")
    case True
    then have "mag A mod mag B \<noteq> 0" using assms(2) by (auto simp: rem_val_def)
    then have "bit (- (mag A mod mag B)) 31" using lt by (intro bit31_neg) simp_all
    then show ?thesis using True by (simp add: rem_val_def)
  next
    case False
    then show ?thesis using lt by (simp add: rem_val_def bit31_iff)
  qed
qed

lemma unat_mag_minWord: "unat (mag A) = 2147483648 \<Longrightarrow> A = minWord"
proof -
  assume a: "unat (mag A) = 2147483648"
  have "unat (2147483648 :: 32 word) = 2147483648" by simp
  then have m: "mag A = 2147483648" using a by (simp only: word_unat_eq_iff)
  show ?thesis
  proof (cases "bit A 31")
    case True
    then have "- A = 2147483648" using m by (simp add: mag_def)
    then have "A = - 2147483648" by (metis minus_minus)
    then show ?thesis by (simp add: minWord_def)
  next
    case False
    then show ?thesis using m by (simp add: mag_def minWord_def)
  qed
qed

lemma unat_mag_one: "unat (mag B) = 1 \<Longrightarrow> bit B 31 \<Longrightarrow> B = - 1"
proof -
  assume a: "unat (mag B) = 1" and b: "bit B 31"
  have "unat (1 :: 32 word) = 1" by simp
  then have "mag B = 1" using a by (simp only: word_unat_eq_iff)
  then have "- B = 1" using b by (simp add: mag_def)
  then show ?thesis by (metis minus_minus)
qed

lemma quot_magnitude:
  assumes "B \<noteq> 0" and "\<not> (A = minWord \<and> B = - 1)" and "bit A 31 = bit B 31"
  shows "unat (mag A div mag B) < 2147483648"
proof (rule ccontr)
  assume "\<not> unat (mag A div mag B) < 2147483648"
  then have big: "2147483648 \<le> unat (mag A) div unat (mag B)" by (simp add: unat_div)
  have bpos: "0 < unat (mag B)" using mag_nonzero [OF assms(1)] by (simp add: unat_gt_0)
  have "unat (mag A) div unat (mag B) \<le> unat (mag A)" by (rule div_le_dividend)
  then have a: "unat (mag A) = 2147483648" using big unat_mag_le [of A] by linarith
  have b: "unat (mag B) = 1"
  proof (rule ccontr)
    assume "unat (mag B) \<noteq> 1"
    then have "2 \<le> unat (mag B)" using bpos by linarith
    then have "unat (mag A) div unat (mag B) \<le> unat (mag A) div 2" by (intro div_le_mono2) simp_all
    then show False using big a by simp
  qed
  have A: "A = minWord" using a by (rule unat_mag_minWord)
  then have "bit A 31" by (simp add: minWord_def)
  then have "B = - 1" using b assms(3) by (intro unat_mag_one) simp_all
  then show False using A assms(2) by simp
qed

lemma quot_sign:
  assumes "B \<noteq> 0" and "quot_val A B \<noteq> 0" and "\<not> (A = minWord \<and> B = - 1)"
  shows "bit (quot_val A B) 31 = (bit A 31 \<noteq> bit B 31)"
proof (cases "bit A 31 = bit B 31")
  case True
  then show ?thesis
    using quot_magnitude [OF assms(1,3) True] by (simp add: quot_val_def bit31_iff)
next
  case False
  then have nz: "mag A div mag B \<noteq> 0" using assms(2) by (auto simp: quot_val_def)
  have "unat (mag A div mag B) \<le> unat (mag A)" by (simp add: unat_div div_le_dividend)
  then have "unat (mag A div mag B) \<le> 2147483648" using unat_mag_le [of A] by linarith
  then have "bit (- (mag A div mag B)) 31" using nz by (intro bit31_neg)
  then show ?thesis using False by (simp add: quot_val_def)
qed

section \<open>Circular shift for counts of magnitude 16 to 32\<close>

lemma smod_small: "0 \<le> p \<Longrightarrow> p < c \<Longrightarrow> p smod c = (p :: int)"
  by (cases "p = 0") (simp_all add: signed_modulo_int_def)

lemma cshWord_ge16:
  assumes c: "16 \<le> \<bar>count\<bar>" "\<bar>count\<bar> \<le> 32" and r: "result \<noteq> Csh_localop"
  shows "cshWord result opd count s =
     Some ((s(Csh_localop := s opd))
        (result := push_bit (nat \<bar>count\<bar>) (s opd) OR drop_bit (32 - nat \<bar>count\<bar>) (s opd)))"
proof -
  define c where "c = \<bar>count\<bar>"
  define A where "A = s opd"
  have cr: "16 \<le> c" "c \<le> 32" using c by (simp_all add: c_def)
  define s0 where "s0 = (if c = 0 \<or> c smod 32 = 0 then setWord result opd s else s)"
  define s1 where "s1 = setWord Csh_localop opd s0"
  have s0opd: "s0 opd = A" by (auto simp: s0_def setWord_def A_def)
  have s1l: "s1 Csh_localop = A" by (simp add: s1_def setWord_def s0opd)
  from write_down [of "32 - c" 31 "\<lambda>b. b - (32 - c)" "\<lambda>i. int i + (32 - c)" result s1
      "\<lambda>b s. do { t \<leftarrow> getBitOfWord Csh_localop b s; setBitOfWord result (b - (32 - c)) t s }"
      "\<lambda>b. bit A (nat b)"]
  obtain w1 where w1: "for_down 31 (32 - c) (\<lambda>b s. do { t \<leftarrow> getBitOfWord Csh_localop b s; setBitOfWord result (b - (32 - c)) t s }) s1
        = Some (s1(result := w1))"
     "\<And>i. bit w1 i = (if int i + (32 - c) \<le> 31 then bit A (nat (int i + (32 - c))) else bit (s1 result) i)"
    using cr r s1l by (auto simp: getBitOfWord_in)
  define s2 where "s2 = s1(result := w1)"
  have s2l: "s2 Csh_localop = A" using r by (simp add: s2_def s1l)
  from write_down [of 0 "31 - c" "\<lambda>p. p + c" "\<lambda>i. int i - c" result s2
      "\<lambda>p s. do { t \<leftarrow> getBitOfWord Csh_localop p s; setBitOfWord result ((p smod c) + c) t s }"
      "\<lambda>p. bit A (nat p)"]
  obtain w2 where w2: "for_down (31 - c) 0 (\<lambda>p s. do { t \<leftarrow> getBitOfWord Csh_localop p s; setBitOfWord result ((p smod c) + c) t s }) s2
        = Some (s2(result := w2))"
     "\<And>i. bit w2 i = (if 0 \<le> int i - c \<and> int i - c \<le> 31 - c then bit A (nat (int i - c)) else bit (s2 result) i)"
    using cr r s2l by (auto simp: getBitOfWord_in smod_small)
  have "w2 = push_bit (nat c) A OR drop_bit (32 - nat c) A"
  proof (rule bit_eqI)
    fix i assume "possible_bit TYPE(32 word) i"
    then have i: "i < 32" by simp
    have hi: "\<not> bit A (32 - nat c + i)" if "c \<le> int i"
      using that cr bit_imp_le_length [of A "32 - nat c + i"] by auto
    have e1: "nat (int i + (32 - c)) = 32 - nat c + i" using cr by simp
    have e2: "nat (int i - c) = i - nat c" using cr by simp
    show "bit w2 i = bit (push_bit (nat c) A OR drop_bit (32 - nat c) A) i"
      using i cr hi
      by (auto simp: w2(2) s2_def w1(2) bit_or_iff bit_push_bit_iff bit_drop_bit_eq e1 e2 nat_le_iff)
  qed
  then have fin: "s2(result := w2) = (s(Csh_localop := A))(result := push_bit (nat c) A OR drop_bit (32 - nat c) A)"
    using r by (auto simp: s2_def s1_def s0_def setWord_def A_def)
  have ca: "c_abs count = Some c" using c by (auto simp: c_abs_def c_def)
  have half: "wordsize sdiv 2 = 16" by (simp add: wordsize_def signed_divide_int_def)
  have top: "wordtopbit = 31" by (simp add: wordtopbit_def wordsize_def)
  have lo: "31 - c + 1 = 32 - c" by simp
  have "cshWord result opd count s =
      for_down 31 (32 - c) (\<lambda>b s. do { t \<leftarrow> getBitOfWord Csh_localop b s; setBitOfWord result (b - (32 - c)) t s }) s1 \<bind>
      for_down (31 - c) 0 (\<lambda>p s. do { t \<leftarrow> getBitOfWord Csh_localop p s; setBitOfWord result ((p smod c) + c) t s })"
    unfolding cshWord_def ca half top s1_def s0_def
    using cr by (simp add: Let_def lo split del: if_split)
  then have "cshWord result opd count s = Some (s2(result := w2))"
    by (simp only: w1(1) s2_def [symmetric] bind.bind_lunit w2(1))
  then show ?thesis by (simp only: fin c_def A_def)
qed

lemma cshWord_65: "cshWord result opd 65 s = None"
proof -
  have half: "wordsize sdiv 2 = 16" by (simp add: wordsize_def signed_divide_int_def)
  have top: "wordtopbit = 31" by (simp add: wordtopbit_def wordsize_def)
  have ca: "c_abs 65 = Some 65" by (simp add: c_abs_def)
  show ?thesis
    unfolding cshWord_def ca half top
    by (simp add: Let_def for_down.simps [of 31] getBitOfWord_def setBitOfWord_def
        wordtopbit_def wordsize_def setWord_def)
qed

section \<open>Arithmetic shift\<close>

lemma ashWord_right:
  assumes c: "0 < c" "c \<le> 31" and r: "result \<noteq> Ash_localop"
  shows "ashWord result opd (- c) s =
           Some ((s(Ash_localop := s opd))(result := signed_drop_bit (nat c) (s opd)))"
proof -
  define A where "A = s opd"
  define s1 where "s1 = s(Ash_localop := A)"
  have s1: "s1 Ash_localop = A" by (simp add: s1_def)
  from write_down [of c 30 "\<lambda>b. b - c" "\<lambda>i. int i + c" result s1
      "\<lambda>b s. do { t \<leftarrow> getBitOfWord Ash_localop b s; setBitOfWord result (b - c) t s }"
      "\<lambda>b. bit A (nat b)"]
  obtain w1 where w1: "for_down 30 c (\<lambda>b s. do { t \<leftarrow> getBitOfWord Ash_localop b s; setBitOfWord result (b - c) t s }) s1
        = Some (s1(result := w1))"
     "\<And>i. bit w1 i = (if int i + c \<le> 30 then bit A (nat (int i + c)) else bit (s1 result) i)"
    using c r s1 by (auto simp: getBitOfWord_in)
  define s2 where "s2 = s1(result := w1)"
  from write_down [of 1 c "\<lambda>b. 31 - b" "\<lambda>i. 31 - int i" result s2
      "\<lambda>b s. setBitOfWord result (31 - b) (bit A 31) s" "\<lambda>b. bit A 31"]
  obtain w2 where w2: "for_down c 1 (\<lambda>b s. setBitOfWord result (31 - b) (bit A 31) s) s2 = Some (s2(result := w2))"
     "\<And>i. bit w2 i = (if 1 \<le> 31 - int i \<and> 31 - int i \<le> c then bit A 31 else bit (s2 result) i)"
    using c by auto
  define w3 where "w3 = (if bit A 31 then set_bit 31 w2 else unset_bit 31 w2)"
  have "w3 = signed_drop_bit (nat c) A"
  proof (rule bit_eqI)
    fix i assume "possible_bit TYPE(32 word) i"
    then have i: "i < 32" by simp
    have e: "nat (int i + c) = nat c + i" using c by simp
    have k: "nat c + i = 31" if "31 - int i \<le> c" "\<not> 32 - nat c \<le> i"
      using that c by arith
    show "bit w3 i = bit (signed_drop_bit (nat c) A) i"
      using i c k
      by (auto simp: w3_def bit_put_iff w2(2) s2_def w1(2) bit_signed_drop_bit_iff e)
  qed
  then have fin: "s2(result := w3) = (s(Ash_localop := A))(result := signed_drop_bit (nat c) A)"
    by (simp add: s2_def s1_def)
  have ca: "c_abs (- c) = Some c" using c by (auto simp: c_abs_def)
  have top: "wordtopbit = 31" by (simp add: wordtopbit_def wordsize_def)
  have "ashWord result opd (- c) s =
      for_down 30 c (\<lambda>b s. do { t \<leftarrow> getBitOfWord Ash_localop b s; setBitOfWord result (b - c) t s }) s1 \<bind>
      for_down c 1 (\<lambda>b s. setBitOfWord result (31 - b) (bit A 31) s) \<bind>
      setBitOfWord result 31 (bit A 31)"
    unfolding ashWord_def ca top
    using c by (simp add: Let_def wordsize_def setWord_def getBitOfWord_in s1_def A_def)
  then have "ashWord result opd (- c) s = Some (s2(result := w3))"
    by (simp add: w1(1) s2_def [symmetric] w2(1) setBitOfWord_in w3_def)
  then show ?thesis by (simp only: fin A_def)
qed

lemma ashWord_left:
  assumes c: "0 \<le> c" "c \<le> 31" and r: "result \<noteq> Ash_localop"
  shows "ashWord result opd c s =
           Some ((s(Ash_localop := s opd))(result := ash_left_val (s opd) (nat c)))"
proof -
  define A where "A = s opd"
  define s1 where "s1 = s(Ash_localop := A)"
  have s1: "s1 Ash_localop = A" by (simp add: s1_def)
  from write_down [of c 30 "\<lambda>b. b" "\<lambda>i. int i" result s1
      "\<lambda>b s. do { t \<leftarrow> getBitOfWord Ash_localop (b - c) s; setBitOfWord result b t s }"
      "\<lambda>b. bit A (nat (b - c))"]
  obtain w1 where w1: "for_down 30 c (\<lambda>b s. do { t \<leftarrow> getBitOfWord Ash_localop (b - c) s; setBitOfWord result b t s }) s1
        = Some (s1(result := w1))"
     "\<And>i. bit w1 i = (if c \<le> int i \<and> int i \<le> 30 then bit A (nat (int i - c)) else bit (s1 result) i)"
    using c r s1 by (auto simp: getBitOfWord_in)
  define s2 where "s2 = s1(result := w1)"
  from write_down [of 0 "c - 1" "\<lambda>b. b" "\<lambda>i. int i" result s2
      "\<lambda>b s. setBitOfWord result b False s" "\<lambda>b. False"]
  obtain w2 where w2: "for_down (c - 1) 0 (\<lambda>b s. setBitOfWord result b False s) s2 = Some (s2(result := w2))"
     "\<And>i. bit w2 i = (if int i \<le> c - 1 then False else bit (s2 result) i)"
    using c by auto
  define w3 where "w3 = (if bit A 31 then set_bit 31 w2 else unset_bit 31 w2)"
  have "w3 = ash_left_val A (nat c)"
  proof (rule bit_eqI)
    fix i assume "possible_bit TYPE(32 word) i"
    then have i: "i < 32" by simp
    show "bit w3 i = bit (ash_left_val A (nat c)) i"
      using i c
      by (auto simp: w3_def ash_left_val_def bit_set_bit_iff bit_unset_bit_iff w2(2) s2_def w1(2)
          bit_push_bit_iff nat_diff_distrib nat_le_iff)
  qed
  then have fin: "s2(result := w3) = (s(Ash_localop := A))(result := ash_left_val A (nat c))"
    by (simp add: s2_def s1_def)
  have ca: "c_abs c = Some c" using c by (auto simp: c_abs_def)
  have top: "wordtopbit = 31" by (simp add: wordtopbit_def wordsize_def)
  have "ashWord result opd c s =
      for_down 30 c (\<lambda>b s. do { t \<leftarrow> getBitOfWord Ash_localop (b - c) s; setBitOfWord result b t s }) s1 \<bind>
      for_down (c - 1) 0 (\<lambda>b s. setBitOfWord result b False s) \<bind>
      setBitOfWord result 31 (bit A 31)"
    unfolding ashWord_def ca top
    using c by (simp add: Let_def wordsize_def setWord_def getBitOfWord_in s1_def A_def)
  then have "ashWord result opd c s = Some (s2(result := w3))"
    by (simp add: w1(1) s2_def [symmetric] w2(1) setBitOfWord_in w3_def)
  then show ?thesis by (simp only: fin A_def)
qed

lemma sint_signed_drop_bit_div:
  "sint (signed_drop_bit n (w :: 32 word)) = sint w div 2 ^ n"
  by (simp add: sint_signed_drop_bit_eq drop_bit_eq_div)

lemma ash_left_val_sign: "bit (ash_left_val A c) 31 = bit A 31"
  by (simp add: ash_left_val_def bit_set_bit_iff bit_unset_bit_iff)

lemma ash_left_val_low: "take_bit 31 (ash_left_val A c) = take_bit 31 (A * 2 ^ c)"
  by (simp add: ash_left_val_def take_bit_set_bit_eq take_bit_unset_bit_eq push_bit_eq_mult)

lemma sint_push_bit_fits:
  assumes "- (2 ^ 31) \<le> sint (A :: 32 word) * 2 ^ c" and "sint A * 2 ^ c < 2 ^ 31"
  shows "sint (push_bit c A) = sint A * 2 ^ c"
proof -
  have "sint (push_bit c A) = signed_take_bit 31 (push_bit c (sint A))"
    using signed_push_bit_eq [of c A, where 'a = int] by simp
  also have "\<dots> = signed_take_bit 31 (sint A * 2 ^ c)"
    by (simp add: push_bit_eq_mult)
  also have "\<dots> = sint A * 2 ^ c"
    using assms by (rule signed_take_bit_int_eq_self)
  finally show ?thesis .
qed

lemma ash_left_val_fits:
  assumes "- (2 ^ 31) \<le> sint (A :: 32 word) * 2 ^ c" and "sint A * 2 ^ c < 2 ^ 31"
  shows "ash_left_val A c = push_bit c A"
proof -
  have "bit (push_bit c A) 31 \<longleftrightarrow> sint (push_bit c A) < 0" by (rule bit31_sint)
  also have "\<dots> \<longleftrightarrow> sint A * 2 ^ c < 0" by (simp only: sint_push_bit_fits [OF assms])
  also have "\<dots> \<longleftrightarrow> sint A < 0" by (simp add: mult_less_0_iff)
  also have "\<dots> \<longleftrightarrow> bit A 31" by (simp only: bit31_sint)
  finally have same: "bit (push_bit c A) 31 = bit A 31" .
  show ?thesis
  proof (rule bit_eqI)
    fix i assume "possible_bit TYPE(32 word) i"
    show "bit (ash_left_val A c) i = bit (push_bit c A) i"
      using same by (cases "i = 31") (auto simp: ash_left_val_def bit_set_bit_iff bit_unset_bit_iff)
  qed
qed

section \<open>Loops whose indices stay in range\<close>

lemma for_down_total:
  assumes "\<And>b t. lo \<le> b \<Longrightarrow> b \<le> hi \<Longrightarrow> \<exists>t'. body b t = Some t'"
  shows "\<exists>t. for_down hi lo body s = Some t"
  using for_down_rule [of "\<lambda>b t. True" hi s lo body] assms by auto

lemma for_up_total:
  assumes "\<And>b t. lo \<le> b \<Longrightarrow> b \<le> hi \<Longrightarrow> \<exists>t'. body b t = Some t'"
  shows "\<exists>t. for_up lo hi body s = Some t"
  using for_up_rule [of "\<lambda>b t. True" lo s hi body] assms by auto

lemma bind_total:
  assumes "\<exists>t. m = Some t" and "\<And>t. \<exists>u. f t = Some u"
  shows "\<exists>u. (m \<bind> f) = Some u"
  using assms by auto

lemma copy_total:
  assumes "0 \<le> i" "i \<le> 31" "0 \<le> j" "j \<le> 31"
  shows "\<exists>t'. (getBitOfWord a i t \<bind> (\<lambda>v. setBitOfWord r j v t)) = Some t'"
  using assms by (simp add: getBitOfWord_in setBitOfWord_in)

lemma set_total:
  assumes "0 \<le> j" "j \<le> 31"
  shows "\<exists>t'. setBitOfWord r j v t = Some t'"
  using assms by (simp add: setBitOfWord_in)

lemma smod_range: "0 \<le> b \<Longrightarrow> 0 < m \<Longrightarrow> 0 \<le> b smod m \<and> b smod m < (m :: int)"
  by (cases "b = 0") (simp_all add: signed_modulo_int_def)

lemma ashWord_total:
  assumes "count \<noteq> - (2 ^ 31)"
  shows "\<exists>t. ashWord result opd count s = Some t"
proof -
  define c where "c = (if \<bar>count\<bar> \<ge> 32 then 31 else \<bar>count\<bar>)"
  have c: "0 \<le> c" "c \<le> 31" by (auto simp: c_def)
  have ca: "c_abs count = Some \<bar>count\<bar>" using assms by (simp add: c_abs_def)
  have top: "wordtopbit = 31" "wordsize = 32" by (simp_all add: wordtopbit_def wordsize_def)
  show ?thesis
    unfolding ashWord_def ca top Let_def
    apply (simp only: bind.bind_lunit c_def [symmetric] diff_numeral_special arith_simps)
    apply (rule bind_total)
     apply (simp add: getBitOfWord_in)
    apply (rule bind_total)
    subgoal for sign
      apply (cases "count < 0")
       apply (simp only: if_True)
       apply (rule bind_total)
        apply (rule for_down_total, rule copy_total; use c in linarith)
       apply (rule for_down_total, rule set_total; use c in linarith)
      apply (simp only: if_False)
      apply (rule bind_total)
       apply (rule for_down_total, rule copy_total; use c in linarith)
      apply (rule for_down_total, rule set_total; use c in linarith)
      done
    apply (rule set_total; simp)
    done
qed

lemma lshWord_total:
  assumes "count \<noteq> - (2 ^ 31)"
  shows "\<exists>t. lshWord result opd count s = Some t"
proof -
  define c where "c = (if \<bar>count\<bar> \<ge> 32 then 31 else \<bar>count\<bar>)"
  have c: "0 \<le> c" "c \<le> 31" by (auto simp: c_def)
  have ca: "c_abs count = Some \<bar>count\<bar>" using assms by (simp add: c_abs_def)
  have top: "wordtopbit = 31" "wordsize = 32" by (simp_all add: wordtopbit_def wordsize_def)
  show ?thesis
    unfolding lshWord_def ca top Let_def
    apply (simp only: bind.bind_lunit c_def [symmetric] diff_numeral_special arith_simps)
    apply (cases "count < 0")
     apply (simp only: if_True)
     apply (rule bind_total)
      apply (rule for_down_total, rule copy_total; use c in linarith)
     apply (rule for_down_total, rule set_total; use c in linarith)
    apply (simp only: if_False)
    apply (rule bind_total)
     apply (rule for_down_total, rule copy_total; use c in linarith)
    apply (rule for_down_total, rule set_total; use c in linarith)
    done
qed

lemma maskWord_total:
  assumes "count \<noteq> - (2 ^ 31)"
  shows "\<exists>t. maskWord result opd count s = Some t"
proof -
  define c where "c = (if \<bar>count\<bar> > 32 then 32 else \<bar>count\<bar>)"
  have c: "0 \<le> c" "c \<le> 32" by (auto simp: c_def)
  have ca: "c_abs count = Some \<bar>count\<bar>" using assms by (simp add: c_abs_def)
  have top: "wordtopbit = 31" "wordsize = 32" by (simp_all add: wordtopbit_def wordsize_def)
  show ?thesis
    unfolding maskWord_def ca top Let_def
    apply (simp only: bind.bind_lunit c_def [symmetric])
    apply (cases "count < 0")
     apply (simp only: if_True)
     apply (rule bind_total)
      apply (rule for_down_total, rule copy_total; use c in linarith)
     apply (rule for_down_total, rule set_total; use c in linarith)
    apply (simp only: if_False)
    apply (rule bind_total)
     apply (rule for_up_total, rule copy_total; use c in linarith)
    apply (rule for_up_total, rule set_total; use c in linarith)
    done
qed

lemma cshWord_total:
  assumes "\<bar>count\<bar> \<le> 64"
  shows "\<exists>t. cshWord result opd count s = Some t"
proof -
  define c where "c = (if \<bar>count\<bar> > 32 then \<bar>count\<bar> - 32 else \<bar>count\<bar>)"
  have c: "0 \<le> c" "c \<le> 32" using assms by (auto simp: c_def)
  have ca: "c_abs count = Some \<bar>count\<bar>" using assms by (auto simp: c_abs_def)
  have top: "wordtopbit = 31" by (simp add: wordtopbit_def wordsize_def)
  have half: "wordsize sdiv 2 = 16" by (simp add: wordsize_def signed_divide_int_def)
  have m1: "0 \<le> b smod (32 - c) \<and> b smod (32 - c) \<le> 31" if "c < 16" "0 \<le> b" for b
    using smod_range [of b "32 - c"] that c by auto
  have m2: "0 \<le> p smod (32 - c) + c \<and> p smod (32 - c) + c \<le> 31" if "c < 16" "0 \<le> p" "p \<le> 31 - c" for p
    using smod_small [of p "32 - c"] that c by auto
  have m3: "0 \<le> p smod c + c \<and> p smod c + c \<le> 31" if "16 \<le> c" "0 \<le> p" "p \<le> 31 - c" for p
    using smod_small [of p c] that c by auto
  have low: "\<exists>t. (for_down 31 (31 - c + 1)
                (\<lambda>b s. getBitOfWord Csh_localop b s \<bind> (\<lambda>t. setBitOfWord result (b smod (32 - c)) t s)) s0 \<bind>
              for_down (31 - c) c
                (\<lambda>p s. getBitOfWord Csh_localop p s \<bind> (\<lambda>t. setBitOfWord result (p smod (32 - c) + c) t s)))
            = Some t" if "c < 16" for s0
    apply (rule bind_total)
     apply (rule for_down_total, rule copy_total; use c m1 that in force)
    apply (rule for_down_total, rule copy_total; use c m2 that in force)
    done
  have high: "\<exists>t. (for_down 31 (31 - c + 1)
                (\<lambda>b s. getBitOfWord Csh_localop b s \<bind> (\<lambda>t. setBitOfWord result (b - (32 - c)) t s)) s0 \<bind>
              for_down (31 - c) 0
                (\<lambda>p s. getBitOfWord Csh_localop p s \<bind> (\<lambda>t. setBitOfWord result (p smod c + c) t s)))
            = Some t" if "16 \<le> c" for s0
    apply (rule bind_total)
     apply (rule for_down_total, rule copy_total; use c that in linarith)
    apply (rule for_down_total, rule copy_total; use c m3 that in force)
    done
  show ?thesis
  proof (cases "c < 16")
    case True
    then have n: "\<not> 16 \<le> c" by simp
    show ?thesis
      unfolding cshWord_def ca top half Let_def
      by (simp only: bind.bind_lunit c_def [symmetric] True n if_True if_False Option.bind_runit low [OF True])
  next
    case False
    then have n: "16 \<le> c" by simp
    show ?thesis
      unfolding cshWord_def ca top half Let_def
      by (simp only: bind.bind_lunit c_def [symmetric] False n if_True if_False high [OF n])
  qed
qed

section \<open>Fuel of the multiplier, and circular shift for small counts\<close>

lemma mulWord_loop_out_of_fuel:
  assumes "result \<noteq> Mul_localop1" "result \<noteq> Mul_localop2" "result \<noteq> Lsh_localop"
    and "2 ^ n \<le> unat (s Mul_localop2)"
  shows "mulWord_loop n result s = None"
  using assms(4)
proof (induction n arbitrary: s)
  case 0
  then have "s Mul_localop2 \<noteq> 0" by (auto simp: unat_eq_0)
  then show ?case
    by (subst mulWord_loop.simps) (simp add: testEqWord_eq)
next
  case (Suc m)
  then have nz: "s Mul_localop2 \<noteq> 0" by (auto simp: unat_eq_0)
  define t where "t = bit (s Mul_localop2) 0"
  define s1 where "s1 = (if t then s(result := s result + s Mul_localop1) else s)"
  define s2 where "s2 = (s1(Lsh_localop := s1 Mul_localop1))(Mul_localop1 := push_bit 1 (s1 Mul_localop1))"
  define s3 where "s3 = (s2(Lsh_localop := s2 Mul_localop2))(Mul_localop2 := drop_bit 1 (s2 Mul_localop2))"
  have v3: "s3 Mul_localop2 = drop_bit 1 (s Mul_localop2)"
    using assms(1,2,3) by (auto simp: s3_def s2_def s1_def)
  have unf: "mulWord_loop (Suc m) result s = mulWord_loop m result s3"
    using nz
    by (subst mulWord_loop.simps)
       (simp add: testEqWord_eq getBitOfWord_in addWord_eq lshWord_left lshWord_right [of 1, simplified]
          t_def [symmetric] s1_def s2_def s3_def)
  have "unat (drop_bit 1 (s Mul_localop2)) = unat (s Mul_localop2) div 2"
    by (simp add: drop_bit_eq_div unat_div)
  moreover have "2 ^ m \<le> unat (s Mul_localop2) div 2"
    using Suc.prems by simp
  ultimately have "2 ^ m \<le> unat (s3 Mul_localop2)" by (simp only: v3)
  from Suc.IH [of s3, OF this] show ?case by (simp only: unf)
qed

lemma cshWord_lt16:
  assumes c: "0 < \<bar>count\<bar>" "\<bar>count\<bar> < 16" and r: "result \<noteq> Csh_localop"
  shows "\<exists>w. cshWord result opd count s = Some ((s(Csh_localop := s opd))(result := w))
     \<and> (\<forall>i < 32. bit w i =
           (if i < nat \<bar>count\<bar> then bit (s opd) (i + 32 - nat \<bar>count\<bar>)
            else if i < 2 * nat \<bar>count\<bar> then bit (s result) i
            else bit (s opd) (i - nat \<bar>count\<bar>)))"
proof -
  define c where "c = \<bar>count\<bar>"
  define A where "A = s opd"
  have cr: "0 < c" "c < 16" using c by (simp_all add: c_def)
  define s1 where "s1 = s(Csh_localop := A)"
  have s1l: "s1 Csh_localop = A" by (simp add: s1_def)
  have g1: "b smod (32 - c) = b - (32 - c)" if "32 - c \<le> b" "b \<le> 31" for b
  proof -
    have "b mod (32 - c) = (b - (32 - c)) mod (32 - c)" by (simp add: mod_diff_right_eq [symmetric])
    also have "\<dots> = b - (32 - c)" using that cr by (intro mod_pos_pos_trivial) linarith+
    finally show ?thesis using that cr by (simp add: signed_modulo_int_def sgn_if)
  qed
  from write_down [of "32 - c" 31 "\<lambda>b. b - (32 - c)" "\<lambda>i. int i + (32 - c)" result s1
      "\<lambda>b s. do { t \<leftarrow> getBitOfWord Csh_localop b s; setBitOfWord result (b smod (32 - c)) t s }"
      "\<lambda>b. bit A (nat b)"]
  obtain w1 where w1: "for_down 31 (32 - c) (\<lambda>b s. do { t \<leftarrow> getBitOfWord Csh_localop b s; setBitOfWord result (b smod (32 - c)) t s }) s1
        = Some (s1(result := w1))"
     "\<And>i. bit w1 i = (if int i + (32 - c) \<le> 31 then bit A (nat (int i + (32 - c))) else bit (s1 result) i)"
    using cr r s1l by (auto simp: getBitOfWord_in g1)
  define s2 where "s2 = s1(result := w1)"
  have s2l: "s2 Csh_localop = A" using r by (simp add: s2_def s1l)
  from write_down [of c "31 - c" "\<lambda>p. p + c" "\<lambda>i. int i - c" result s2
      "\<lambda>p s. do { t \<leftarrow> getBitOfWord Csh_localop p s; setBitOfWord result ((p smod (32 - c)) + c) t s }"
      "\<lambda>p. bit A (nat p)"]
  obtain w2 where w2: "for_down (31 - c) c (\<lambda>p s. do { t \<leftarrow> getBitOfWord Csh_localop p s; setBitOfWord result ((p smod (32 - c)) + c) t s }) s2
        = Some (s2(result := w2))"
     "\<And>i. bit w2 i = (if c \<le> int i - c \<and> int i - c \<le> 31 - c then bit A (nat (int i - c)) else bit (s2 result) i)"
    using cr r s2l by (auto simp: getBitOfWord_in smod_small)
  have bits: "bit w2 i = (if i < nat c then bit A (i + 32 - nat c)
            else if i < 2 * nat c then bit (s result) i else bit A (i - nat c))" if "i < 32" for i
  proof -
    have e1: "nat (int i + (32 - c)) = i + 32 - nat c" using cr by simp
    have e2: "nat (int i - c) = i - nat c" using cr by simp
    show ?thesis
      using that cr r by (auto simp: w2(2) s2_def w1(2) s1_def e1 e2)
  qed
  have fin: "s2(result := w2) = (s(Csh_localop := A))(result := w2)"
    by (simp add: s2_def s1_def)
  have ca: "c_abs count = Some c" using c by (auto simp: c_abs_def c_def)
  have half: "wordsize sdiv 2 = 16" by (simp add: wordsize_def signed_divide_int_def)
  have top: "wordtopbit = 31" by (simp add: wordtopbit_def wordsize_def)
  have lo: "31 - c + 1 = 32 - c" by simp
  have z: "c smod 32 \<noteq> 0" using cr smod_small [of c 32] by simp
  have "cshWord result opd count s =
      for_down 31 (32 - c) (\<lambda>b s. do { t \<leftarrow> getBitOfWord Csh_localop b s; setBitOfWord result (b smod (32 - c)) t s }) s1 \<bind>
      for_down (31 - c) c (\<lambda>p s. do { t \<leftarrow> getBitOfWord Csh_localop p s; setBitOfWord result ((p smod (32 - c)) + c) t s })"
    unfolding cshWord_def ca half top s1_def A_def
    using cr z by (simp add: Let_def lo setWord_def split del: if_split)
  then have "cshWord result opd count s = Some (s2(result := w2))"
    by (simp only: w1(1) s2_def [symmetric] bind.bind_lunit w2(1))
  then show ?thesis using bits by (auto simp: fin c_def A_def)
qed

section \<open>Shifts into the operand buffer\<close>

lemma lshWord_alias:
  assumes "- 31 \<le> count" and "count \<le> 31" and "op1 \<noteq> Lsh_localop"
  shows "buffer_after (lshWord op1 op1 count s) op1 = buffer_after (lshWord (Caller i) op1 count s) (Caller i)"
proof (cases "count < 0")
  case True
  then have c: "0 < - count" "- count \<le> 31" using assms(1) by simp_all
  show ?thesis
    using lshWord_right [OF c, of op1 op1 s] lshWord_right [OF c, of "Caller i" op1 s] assms(3)
    by (simp add: buffer_after_def)
next
  case False
  then have c: "0 \<le> count" by simp
  show ?thesis
    using lshWord_left [OF c assms(2), of op1 op1 s] lshWord_left [OF c assms(2), of "Caller i" op1 s] assms(3)
    by (simp add: buffer_after_def)
qed

lemma ashWord_alias:
  assumes "- 31 \<le> count" and "count \<le> 31" and "op1 \<noteq> Ash_localop"
  shows "buffer_after (ashWord op1 op1 count s) op1 = buffer_after (ashWord (Caller i) op1 count s) (Caller i)"
proof (cases "count < 0")
  case True
  then have c: "0 < - count" "- count \<le> 31" using assms(1) by simp_all
  show ?thesis
    using ashWord_right [OF c, of op1 op1 s] ashWord_right [OF c, of "Caller i" op1 s] assms(3)
    by (simp add: buffer_after_def)
next
  case False
  then have c: "0 \<le> count" by simp
  show ?thesis
    using ashWord_left [OF c assms(2), of op1 op1 s] ashWord_left [OF c assms(2), of "Caller i" op1 s] assms(3)
    by (simp add: buffer_after_def)
qed


section \<open>Concrete stores\<close>

lemma globals_ok_init [simp]: "globals_ok init_store"
  by (simp add: globals_ok_def init_store_def)

lemma globals_ok_upd_Caller [simp]: "globals_ok (s(Caller n := w)) = globals_ok s"
  by (simp add: globals_ok_def)

lemma init_store_Caller [simp]: "init_store (Caller n) = 0"
  by (simp add: init_store_def)

section \<open>The adder and the subtractor\<close>

text \<open>
  Claim C6. For all words op1 and op2 (in any buffers, aliased or not), addWord runs
  the ripple-carry loop from bit 0 to bit 31 with initial carry 0, raises no error,
  and leaves in the result buffer the word whose two's-complement value is congruent
  to value(op1) + value(op2) modulo 2^32 (the sum wrapped to 32 bits); no other
  buffer changes.
\<close>

theorem addWord_sum_mod:
  "addWord result op1 op2 s = Some (s(result := s op1 + s op2))
   \<and> sint (s op1 + s op2) mod 2 ^ 32 = (sint (s op1) + sint (s op2)) mod 2 ^ 32
   \<and> sint (s op1 + s op2) = signed_take_bit 31 (sint (s op1) + sint (s op2))"
proof -
  have "sint (s op1 + s op2) = signed_take_bit 31 (sint (s op1) + sint (s op2))"
    by (simp add: sint_word_ariths)
  then show ?thesis
    using sint_mod_add [of "s op1" "s op2"] by (simp only: addWord_eq simp_thms)
qed

theorem addWord_sum_mod_witness:
  "addWord (Caller 0) (Caller 1) (Caller 2) (init_store(Caller 1 := 0x7FFFFFFF, Caller 2 := 1))
     = Some ((init_store(Caller 1 := 0x7FFFFFFF, Caller 2 := 1))(Caller 0 := 0x80000000))
   \<and> sint (0x80000000 :: 32 word) = - (2 ^ 31)"
  using addWord_sum_mod [of "Caller 0" "Caller 1" "Caller 2" "init_store(Caller 1 := 0x7FFFFFFF, Caller 2 := 1)"]
  by simp

text \<open>
  Claim C8. For all words a and b, subWord(a, b) (the ripple-carry sum of a and the
  complement of b with initial carry 1) leaves the same word in its result buffer as
  negativeWord of b into a temporary followed by addWord of a and that temporary.
  The temporary is a writable buffer other than a's, and zeroWord holds zero.
\<close>

theorem subWord_is_add_negative:
  assumes "globals_ok s" and "tmp \<noteq> ZeroWord" and "tmp \<noteq> op1"
  shows "\<exists>s1 s2 s3. subWord result op1 op2 s = Some s1
           \<and> negativeWord tmp op2 s = Some s2
           \<and> addWord result op1 tmp s2 = Some s3
           \<and> s3 result = s1 result
           \<and> s1 result = s op1 - s op2"
  using assms by (simp add: subWord_eq negativeWord_eq addWord_eq globals_ok_def zeroWord_def)

theorem subWord_is_add_negative_witness:
  "\<exists>s1 s2 s3. subWord (Caller 0) (Caller 1) (Caller 2) (init_store(Caller 1 := 5, Caller 2 := 7)) = Some s1
           \<and> negativeWord (Caller 3) (Caller 2) (init_store(Caller 1 := 5, Caller 2 := 7)) = Some s2
           \<and> addWord (Caller 0) (Caller 1) (Caller 3) s2 = Some s3
           \<and> s3 (Caller 0) = s1 (Caller 0)
           \<and> s1 (Caller 0) = - 2"
  using subWord_is_add_negative [of "init_store(Caller 1 := 5, Caller 2 := 7)"
      "Caller 3" "Caller 1" "Caller 0" "Caller 2"]
  by simp

text \<open>
  Claim C10. negativeWord of the min-word is the min-word, which is still negative;
  the conversion step of mulWord (notWord, then addWord of the word one) leaves a
  buffer that holds the min-word unchanged as well.
\<close>

theorem negativeWord_minWord_fixed:
  assumes "globals_ok s" and "s opd = minWord" and "s one = 1" and "one \<noteq> opd"
  shows "negativeWord result opd s = Some (s(result := minWord))
         \<and> (do { t \<leftarrow> notWord opd opd s; addWord opd opd one t }) = Some s
         \<and> testLtWord result (s(result := minWord)) = Some True"
proof -
  have z: "s ZeroWord = 0" using assms(1) by (simp add: globals_ok_def zeroWord_def)
  have "negativeWord result opd s = Some (s(result := 0 - minWord))"
    by (simp only: negativeWord_eq z assms(2))
  then have a: "negativeWord result opd s = Some (s(result := minWord))"
    by (simp only: diff_0 neg_minWord)
  have "(do { t \<leftarrow> notWord opd opd s; addWord opd opd one t }) = Some (s(opd := NOT minWord + 1))"
    using assms(2,3,4) by (simp add: notWord_eq addWord_eq)
  moreover have "s(opd := minWord) = s" using assms(2) by auto
  ultimately have b: "(do { t \<leftarrow> notWord opd opd s; addWord opd opd one t }) = Some s"
    by (simp only: not_minWord_plus_1)
  have c: "testLtWord result (s(result := minWord)) = Some True"
    by (simp add: testLtWord_eq minWord_def)
  from a b c show ?thesis by blast
qed

theorem negativeWord_minWord_fixed_witness:
  "negativeWord (Caller 0) (Caller 1)
     (init_store(Caller 1 := minWord, Caller 2 := 1))
     = Some ((init_store(Caller 1 := minWord, Caller 2 := 1))
               (Caller 0 := minWord))
   \<and> (do { t \<leftarrow> notWord (Caller 1) (Caller 1) (init_store(Caller 1 := minWord, Caller 2 := 1));
           addWord (Caller 1) (Caller 1) (Caller 2) t })
     = Some (init_store(Caller 1 := minWord, Caller 2 := 1))"
proof -
  let ?s = "init_store(Caller 1 := minWord, Caller 2 := 1) :: store"
  have h1: "globals_ok ?s" by simp
  have h2: "?s (Caller 1) = minWord" by simp
  have h3: "?s (Caller 2) = 1" by simp
  have h4: "Caller 2 \<noteq> Caller 1" by simp
  from negativeWord_minWord_fixed [OF h1 h2 h3 h4, of "Caller 0"] show ?thesis by blast
qed

section \<open>Termination of the multiplier\<close>

text \<open>
  Claim C9. For all words op1 and op2 (in any buffers) and every result buffer of the
  caller, mulWord returns when its loop is given wordsize iterations: the loop body
  runs at most 32 times, after which the shifted second operand (localop2) is zero.
\<close>

theorem mulWord_terminates:
  "\<exists>s'. mulWord (nat wordsize) (Caller i) op1 op2 s = Some s' \<and> s' Mul_localop2 = 0"
proof -
  have total1: "\<exists>s'. mulWord_loop 32 (Caller i) pre = Some s' \<and> s' Mul_localop2 = 0" for pre
    using mulWord_loop_zero [of i pre] by blast
  have total2: "\<exists>s'. (mulWord_loop 32 (Caller i) pre \<bind> (\<lambda>t. Some (t(Caller i := g t)))) = Some s'
                  \<and> s' Mul_localop2 = 0" for pre g
    using mulWord_loop_zero [of i pre] by auto
  show ?thesis
    unfolding mulWord_def wordsize_def
    by (simp add: setWord_def Let_def getBitOfWord_in setBitOfWord_in notWord_eq addWord_eq total1 total2)
qed

theorem mulWord_terminates_witness:
  "\<exists>s'. mulWord 32 (Caller 0) (Caller 1) (Caller 2) (init_store(Caller 1 := 3, Caller 2 := minWord)) = Some s'
        \<and> s' Mul_localop2 = 0"
  using mulWord_terminates [of 0 "Caller 1" "Caller 2" "init_store(Caller 1 := 3, Caller 2 := minWord)"]
  by (simp add: wordsize_def)

section \<open>Division\<close>

text \<open>
  The sign part of claim C1 fails as stated: 1 divided by -2 gives the quotient 0,
  whose sign bit is 0, while the sign bits of the operands differ.
\<close>

theorem div2Word_zero_quotient_sign:
  "buffer_after (div2Word (Caller 0) (Caller 1) (Caller 2) (Caller 3)
      (init_store(Caller 2 := 1, Caller 3 := - 2))) (Caller 0) = Some 0
   \<and> bit (0 :: 32 word) 31 \<noteq> (bit (1 :: 32 word) 31 \<noteq> bit (- 2 :: 32 word) 31)"
proof -
  have q: "quot_val 1 (- 2) = 0" by (simp add: quot_val_def mag_def)
  have "buffer_after (div2Word (Caller 0) (Caller 1) (Caller 2) (Caller 3)
      (init_store(Caller 2 := 1, Caller 3 := - 2))) (Caller 0) = Some 0"
    using div2Word_nonzero [of "init_store(Caller 2 := 1, Caller 3 := - 2)" 0 1 "Caller 2" "Caller 3" 1 "- 2"]
    by (auto simp: buffer_after_def q)
  then show ?thesis by simp
qed

text \<open>
  Claim C1, amended. For every word a and every non-zero word b, with quotient and
  remainder in two different caller buffers that are not the buffers of a and b:
  div2Word returns; mulWord of the quotient and b followed by addWord of the
  remainder returns a (all arithmetic wrapping at 32 bits); the sign bit of the
  quotient is the XOR of the operands' sign bits whenever the quotient is non-zero
  and (a, b) is not (minWord, -1); and the sign bit of the remainder is the sign bit
  of a whenever the remainder is non-zero.
\<close>

theorem div2Word_mul_add_identity:
  assumes g: "globals_ok s" and qr: "q \<noteq> r" and pr: "p \<noteq> r"
    and r1: "readable op1" and r2: "readable op2"
    and a1: "op1 \<noteq> Caller q" "op1 \<noteq> Caller r" and a2: "op2 \<noteq> Caller q" "op2 \<noteq> Caller r"
    and nz: "s op2 \<noteq> zeroWord"
  shows "\<exists>s1 s2 s3.
            div2Word (Caller q) (Caller r) op1 op2 s = Some s1
          \<and> mulWord (nat wordsize) (Caller p) (Caller q) op2 s1 = Some s2
          \<and> addWord t (Caller p) (Caller r) s2 = Some s3
          \<and> s3 t = s op1
          \<and> (s1 (Caller q) \<noteq> zeroWord \<and> \<not> (s op1 = minWord \<and> s op2 = - 1)
               \<longrightarrow> bit (s1 (Caller q)) 31 = (bit (s op1) 31 \<noteq> bit (s op2) 31))
          \<and> (s1 (Caller r) \<noteq> zeroWord \<longrightarrow> bit (s1 (Caller r)) 31 = bit (s op1) 31)"
proof -
  define A B where "A = s op1" and "B = s op2"
  have A: "A = (s(Caller q := 0, Caller r := 0)) op1" using a1 by (simp add: A_def)
  have B: "B = (s(Caller q := 0, Caller r := 0)) op2" using a2 by (simp add: B_def)
  have Bnz: "B \<noteq> 0" using nz by (simp add: B_def zeroWord_def)
  from div2Word_nonzero [OF g qr r1 r2 A B Bnz]
  obtain s1 where s1: "div2Word (Caller q) (Caller r) op1 op2 s = Some s1"
    "s1 (Caller q) = quot_val A B" "s1 (Caller r) = rem_val A B"
    "\<And>x. readable x \<Longrightarrow> x \<noteq> Caller q \<Longrightarrow> x \<noteq> Caller r \<Longrightarrow> s1 x = s x"
    by blast
  have z1: "s1 ZeroWord = 0" using s1(4) [of ZeroWord] g by (simp add: globals_ok_def zeroWord_def)
  have b1: "s1 op2 = B" using s1(4) [OF r2 a2] by (simp add: B_def)
  from mulWord_eq [of s1 "Caller q" op2 p, OF z1 _ r2]
  obtain s2 where s2: "mulWord 32 (Caller p) (Caller q) op2 s1 = Some s2"
    "s2 (Caller p) = s1 (Caller q) * s1 op2"
    "\<And>x. readable x \<Longrightarrow> x \<noteq> Caller p \<Longrightarrow> s2 x = s1 x"
    by auto
  have rem2: "s2 (Caller r) = rem_val A B" using s2(3) [of "Caller r"] pr s1(3) by simp
  have sum: "s2 (Caller p) + s2 (Caller r) = A"
    using quot_rem_identity [of A B] by (simp add: s2(2) s1(2) b1 rem2)
  have "addWord t (Caller p) (Caller r) s2 = Some (s2(t := A))"
    by (simp add: addWord_eq sum)
  moreover have "s1 (Caller q) \<noteq> 0 \<and> \<not> (A = minWord \<and> B = - 1)
      \<longrightarrow> bit (s1 (Caller q)) 31 = (bit A 31 \<noteq> bit B 31)"
    using quot_sign [OF Bnz, of A] by (auto simp: s1(2))
  moreover have "s1 (Caller r) \<noteq> 0 \<longrightarrow> bit (s1 (Caller r)) 31 = bit A 31"
    using rem_sign [OF Bnz, of A] by (auto simp: s1(3))
  ultimately show ?thesis
    using s1(1) s2(1) by (simp add: A_def B_def wordsize_def zeroWord_def)
qed

theorem div2Word_mul_add_identity_witness:
  "\<exists>s1 s2 s3.
      div2Word (Caller 0) (Caller 1) (Caller 2) (Caller 3) (init_store(Caller 2 := - 7, Caller 3 := 2)) = Some s1
    \<and> mulWord 32 (Caller 4) (Caller 0) (Caller 3) s1 = Some s2
    \<and> addWord (Caller 5) (Caller 4) (Caller 1) s2 = Some s3
    \<and> s3 (Caller 5) = - 7
    \<and> s1 (Caller 0) = - 3 \<and> bit (s1 (Caller 0)) 31
    \<and> s1 (Caller 1) = - 1 \<and> bit (s1 (Caller 1)) 31"
proof -
  let ?s = "init_store(Caller 2 := - 7, Caller 3 := 2)"
  have h: "globals_ok ?s" "(0::nat) \<noteq> 1" "(4::nat) \<noteq> 1" "readable (Caller 2)" "readable (Caller 3)"
    "Caller 2 \<noteq> Caller 0" "Caller 2 \<noteq> Caller 1" "Caller 3 \<noteq> Caller 0" "Caller 3 \<noteq> Caller 1"
    "?s (Caller 3) \<noteq> zeroWord"
    by (simp_all add: zeroWord_def)
  from div2Word_mul_add_identity [OF h, of "Caller 5"]
  obtain s1 s2 s3 where all:
    "div2Word (Caller 0) (Caller 1) (Caller 2) (Caller 3) ?s = Some s1
     \<and> mulWord (nat wordsize) (Caller 4) (Caller 0) (Caller 3) s1 = Some s2
     \<and> addWord (Caller 5) (Caller 4) (Caller 1) s2 = Some s3
     \<and> s3 (Caller 5) = ?s (Caller 2)
     \<and> (s1 (Caller 0) \<noteq> zeroWord \<and> \<not> (?s (Caller 2) = minWord \<and> ?s (Caller 3) = - 1)
          \<longrightarrow> bit (s1 (Caller 0)) 31 = (bit (?s (Caller 2)) 31 \<noteq> bit (?s (Caller 3)) 31))
     \<and> (s1 (Caller 1) \<noteq> zeroWord \<longrightarrow> bit (s1 (Caller 1)) 31 = bit (?s (Caller 2)) 31)"
    by blast
  then have run:
    "div2Word (Caller 0) (Caller 1) (Caller 2) (Caller 3) ?s = Some s1"
    "mulWord 32 (Caller 4) (Caller 0) (Caller 3) s1 = Some s2"
    "addWord (Caller 5) (Caller 4) (Caller 1) s2 = Some s3"
    "s3 (Caller 5) = - 7"
    by (simp_all add: wordsize_def)
  have v: "quot_val (- 7) 2 = - 3" "rem_val (- 7) 2 = - 1"
    by (simp_all add: quot_val_def rem_val_def mag_def)
  from div2Word_nonzero [of ?s 0 1 "Caller 2" "Caller 3" "- 7" 2] run(1)
  have val: "s1 (Caller 0) = - 3" "s1 (Caller 1) = - 1"
    by (auto simp: v)
  have "bit (- 3 :: 32 word) 31" "bit (- 1 :: 32 word) 31" by simp_all
  with run val show ?thesis by (intro exI [of _ s1] exI [of _ s2] exI [of _ s3]) simp
qed

section \<open>Defects of the code\<close>

text \<open>
  Claim C4 does not hold of the code: cshWord never looks at the sign of its count.
  Rotating the word 1 by +20 and the result by -20 rotates left by 20 twice and gives
  256, not 1.
\<close>

theorem cshWord_ignores_sign:
  "buffer_after
     (do { s1 \<leftarrow> cshWord (Caller 0) (Caller 1) 20 (init_store(Caller 1 := 1));
           cshWord (Caller 2) (Caller 0) (- 20) s1 })
     (Caller 2) = Some 256"
  by (simp add: cshWord_ge16 buffer_after_def)

text \<open>
  Claim C5 does not hold of cshWord: the count is reduced by 32 once only, so a count
  of 65 leaves 33, and the first iteration writes bit index 32 of the result, outside
  0..wordtopbit, for every operand.
\<close>

theorem cshWord_count_65_out_of_range:
  "cshWord result opd 65 s = None"
  by (rule cshWord_65)

text \<open>
  Claim C2 does not hold of div2Word: it zeroes the result and remainder buffers
  before it reads the operands. With the result buffer aliased to the dividend, 7
  divided by 2 gives 0 instead of 3; with the remainder buffer aliased to the
  divisor, the divisor is read as zero and the quotient is maxWord instead of 3.
\<close>

theorem div2Word_alias_loses_operand:
  "buffer_after (div2Word (Caller 0) (Caller 1) (Caller 0) (Caller 3)
      (init_store(Caller 0 := 7, Caller 3 := 2))) (Caller 0) = Some 0
   \<and> buffer_after (div2Word (Caller 2) (Caller 1) (Caller 0) (Caller 3)
      (init_store(Caller 0 := 7, Caller 3 := 2))) (Caller 2) = Some 3
   \<and> buffer_after (div2Word (Caller 0) (Caller 3) (Caller 2) (Caller 3)
      (init_store(Caller 2 := 7, Caller 3 := 2))) (Caller 0) = Some maxWord
   \<and> buffer_after (div2Word (Caller 0) (Caller 1) (Caller 2) (Caller 3)
      (init_store(Caller 2 := 7, Caller 3 := 2))) (Caller 0) = Some 3"
proof -
  have q0: "quot_val 0 2 = 0" and q7: "quot_val 7 2 = 3"
    by (simp_all add: quot_val_def mag_def)
  have a: "buffer_after (div2Word (Caller 0) (Caller 1) (Caller 0) (Caller 3)
      (init_store(Caller 0 := 7, Caller 3 := 2))) (Caller 0) = Some 0"
    using div2Word_nonzero [of "init_store(Caller 0 := 7, Caller 3 := 2)" 0 1 "Caller 0" "Caller 3" 0 2]
    by (auto simp: buffer_after_def q0)
  have b: "buffer_after (div2Word (Caller 2) (Caller 1) (Caller 0) (Caller 3)
      (init_store(Caller 0 := 7, Caller 3 := 2))) (Caller 2) = Some 3"
    using div2Word_nonzero [of "init_store(Caller 0 := 7, Caller 3 := 2)" 2 1 "Caller 0" "Caller 3" 7 2]
    by (auto simp: buffer_after_def q7)
  have c: "buffer_after (div2Word (Caller 0) (Caller 3) (Caller 2) (Caller 3)
      (init_store(Caller 2 := 7, Caller 3 := 2))) (Caller 0) = Some maxWord"
    using div2Word_zero [of "init_store(Caller 2 := 7, Caller 3 := 2)" 0 3 "Caller 3" "Caller 2"]
    by (simp add: buffer_after_def)
  have d: "buffer_after (div2Word (Caller 0) (Caller 1) (Caller 2) (Caller 3)
      (init_store(Caller 2 := 7, Caller 3 := 2))) (Caller 0) = Some 3"
    using div2Word_nonzero [of "init_store(Caller 2 := 7, Caller 3 := 2)" 0 1 "Caller 2" "Caller 3" 7 2]
    by (auto simp: buffer_after_def q7)
  from a b c d show ?thesis by blast
qed

text \<open>
  Claim C3 does not hold of div2Word when the result buffer or the remainder buffer
  is the buffer of the dividend: both are zeroed before the sign of the dividend is
  read. Dividing -7 by zero with either buffer aliased to the dividend gives the
  quotient maxWord; the claim says minWord, which is what the code gives with
  separate buffers. This is the defect of claim C2 on the zero-divisor path.
\<close>

theorem div2Word_by_zero_alias_reads_zeroed_dividend:
  "sint (- 7 :: 32 word) < 0
   \<and> buffer_after (div2Word (Caller 0) (Caller 1) (Caller 0) ZeroWord
        (init_store(Caller 0 := - 7))) (Caller 0) = Some maxWord
   \<and> buffer_after (div2Word (Caller 0) (Caller 1) (Caller 1) ZeroWord
        (init_store(Caller 1 := - 7))) (Caller 0) = Some maxWord
   \<and> buffer_after (div2Word (Caller 0) (Caller 1) (Caller 2) ZeroWord
        (init_store(Caller 2 := - 7))) (Caller 0) = Some minWord
   \<and> maxWord \<noteq> minWord"
proof -
  have n: "sint (- 7 :: 32 word) < 0" by simp
  have a: "buffer_after (div2Word (Caller 0) (Caller 1) (Caller 0) ZeroWord
        (init_store(Caller 0 := - 7))) (Caller 0) = Some maxWord"
  proof -
    let ?s = "init_store(Caller 0 := - 7) :: store"
    have g: "globals_ok ?s" by simp
    have B: "(?s(Caller 0 := 0, Caller 1 := 0)) ZeroWord = 0"
      by (simp add: init_store_def zeroWord_def)
    have ij: "(0 :: nat) \<noteq> 1" by simp
    show ?thesis
      using div2Word_zero [OF g ij B, of "Caller 0"] by (simp add: buffer_after_def)
  qed
  have b: "buffer_after (div2Word (Caller 0) (Caller 1) (Caller 1) ZeroWord
        (init_store(Caller 1 := - 7))) (Caller 0) = Some maxWord"
  proof -
    let ?s = "init_store(Caller 1 := - 7) :: store"
    have g: "globals_ok ?s" by simp
    have B: "(?s(Caller 0 := 0, Caller 1 := 0)) ZeroWord = 0"
      by (simp add: init_store_def zeroWord_def)
    have ij: "(0 :: nat) \<noteq> 1" by simp
    show ?thesis
      using div2Word_zero [OF g ij B, of "Caller 1"] by (simp add: buffer_after_def)
  qed
  have c: "buffer_after (div2Word (Caller 0) (Caller 1) (Caller 2) ZeroWord
        (init_store(Caller 2 := - 7))) (Caller 0) = Some minWord"
  proof -
    let ?s = "init_store(Caller 2 := - 7) :: store"
    have g: "globals_ok ?s" by simp
    have B: "(?s(Caller 0 := 0, Caller 1 := 0)) ZeroWord = 0"
      by (simp add: init_store_def zeroWord_def)
    have ij: "(0 :: nat) \<noteq> 1" by simp
    show ?thesis
      using div2Word_zero [OF g ij B, of "Caller 2"] by (simp add: buffer_after_def)
  qed
  have d: "maxWord \<noteq> minWord" by (simp add: maxWord_def minWord_def)
  from n a b c d show ?thesis by blast
qed

section \<open>Arithmetic shift as multiplication and division\<close>

text \<open>
  Claim C7 fails as stated for a left shift that overflows: ashWord of 2^30 by +1 is 0,
  which is neither the wrapped product (the word 2^31) nor the signed value 2^31.
\<close>

theorem ashWord_overflow_counterexample:
  "buffer_after (ashWord (Caller 0) (Caller 1) 1 (init_store(Caller 1 := 0x40000000))) (Caller 0) = Some 0
   \<and> (0x40000000 :: 32 word) * 2 ^ 1 \<noteq> 0
   \<and> sint (0x40000000 :: 32 word) * 2 ^ 1 \<noteq> sint (0 :: 32 word)"
proof -
  have "ash_left_val 0x40000000 1 = 0"
    by (simp add: ash_left_val_def unset_bit_eq_and_not)
  then show ?thesis
    by (simp add: ashWord_left [of 1, simplified] buffer_after_def)
qed

text \<open>
  Claim C7, amended. For every word w and every count c with |c| at most 31, into any
  caller buffer: for c < 0 the signed value of ashWord(w, c) is the signed value of w
  divided by 2^|c|, rounded towards minus infinity; for c >= 0 the result keeps the
  sign bit of w and its low 31 bits are those of w * 2^c, so its signed value is the
  signed value of w times 2^c whenever that product fits in 32 bits.
\<close>

theorem ashWord_power_of_two:
  assumes "- 31 \<le> count" and "count \<le> 31"
  shows "\<exists>s'. ashWord (Caller i) opd count s = Some s'
     \<and> (count < 0 \<longrightarrow> sint (s' (Caller i)) = sint (s opd) div 2 ^ nat (- count))
     \<and> (0 \<le> count \<longrightarrow> bit (s' (Caller i)) 31 = bit (s opd) 31
           \<and> take_bit 31 (s' (Caller i)) = take_bit 31 (s opd * 2 ^ nat count))
     \<and> (0 \<le> count \<and> - (2 ^ 31) \<le> sint (s opd) * 2 ^ nat count \<and> sint (s opd) * 2 ^ nat count < 2 ^ 31
           \<longrightarrow> sint (s' (Caller i)) = sint (s opd) * 2 ^ nat count)"
proof (cases "count < 0")
  case True
  define c where "c = - count"
  have c: "0 < c" "c \<le> 31" "count = - c" using True assms by (simp_all add: c_def)
  have "ashWord (Caller i) opd (- c) s =
          Some ((s(Ash_localop := s opd))(Caller i := signed_drop_bit (nat c) (s opd)))"
    using c(1,2) by (intro ashWord_right) simp_all
  then show ?thesis
    using c by (simp add: sint_signed_drop_bit_div)
next
  case False
  then have c: "0 \<le> count" by simp
  have run: "ashWord (Caller i) opd count s =
          Some ((s(Ash_localop := s opd))(Caller i := ash_left_val (s opd) (nat count)))"
    using c assms(2) by (intro ashWord_left) simp_all
  have fits: "sint (ash_left_val (s opd) (nat count)) = sint (s opd) * 2 ^ nat count"
    if "- (2 ^ 31) \<le> sint (s opd) * 2 ^ nat count" "sint (s opd) * 2 ^ nat count < 2 ^ 31"
    using that by (simp only: ash_left_val_fits sint_push_bit_fits)
  show ?thesis
    using c run fits by (simp add: ash_left_val_sign ash_left_val_low)
qed

theorem ashWord_power_of_two_witness:
  "ashWord (Caller 0) (Caller 1) (- 2) (init_store(Caller 1 := - 7))
     = Some (init_store(Caller 1 := - 7, Ash_localop := - 7, Caller 0 := - 2))
   \<and> sint (- 2 :: 32 word) = sint (- 7 :: 32 word) div 2 ^ 2
   \<and> ashWord (Caller 0) (Caller 1) 3 (init_store(Caller 1 := 5))
     = Some (init_store(Caller 1 := 5, Ash_localop := 5, Caller 0 := 40))
   \<and> sint (40 :: 32 word) = sint (5 :: 32 word) * 2 ^ 3"
proof -
  have h: "- 31 \<le> (- 2 :: int)" "(- 2 :: int) \<le> 31" "- 31 \<le> (3 :: int)" "(3 :: int) \<le> 31" by simp_all
  from ashWord_power_of_two [OF h(1,2), of 0 "Caller 1" "init_store(Caller 1 := - 7)"]
  obtain s1 where s1: "ashWord (Caller 0) (Caller 1) (- 2) (init_store(Caller 1 := - 7)) = Some s1"
    "sint (s1 (Caller 0)) = sint (- 7 :: 32 word) div 2 ^ 2" by auto
  from ashWord_power_of_two [OF h(3,4), of 0 "Caller 1" "init_store(Caller 1 := 5)"]
  obtain s2 where s2: "ashWord (Caller 0) (Caller 1) 3 (init_store(Caller 1 := 5)) = Some s2"
    "sint (s2 (Caller 0)) = sint (5 :: 32 word) * 2 ^ 3" by auto
  have v1: "signed_drop_bit 2 (- 7 :: 32 word) = - 2"
    by (rule word_eq_iff_signed [THEN iffD2]) (simp add: sint_signed_drop_bit_div)
  have v2: "ash_left_val 5 3 = 40"
    by (simp add: ash_left_val_def unset_bit_eq_and_not)
  have e1: "s1 = init_store(Caller 1 := - 7, Ash_localop := - 7, Caller 0 := - 2)"
    using s1(1) by (simp add: ashWord_right [of 2, simplified] v1)
  have e2: "s2 = init_store(Caller 1 := 5, Ash_localop := 5, Caller 0 := 40)"
    using s2(1) by (simp add: ashWord_left [of 3, simplified] v2)
  show ?thesis using s1 s2 by (simp add: e1 e2)
qed

section \<open>Further properties of the code\<close>

text \<open>
  For every count other than INT_MIN (where C's abs is undefined),
  ashWord, lshWord and maskWord return: every bit index they read or write lies in
  0..wordtopbit. cshWord returns for every count of magnitude at most 64.
\<close>

theorem shift_mask_indices_in_range:
  assumes "count \<noteq> - (2 ^ 31)"
  shows "(\<exists>t. ashWord result opd count s = Some t)
       \<and> (\<exists>t. lshWord result opd count s = Some t)
       \<and> (\<exists>t. maskWord result opd count s = Some t)
       \<and> (\<bar>count\<bar> \<le> 64 \<longrightarrow> (\<exists>t. cshWord result opd count s = Some t))"
  using ashWord_total [OF assms] lshWord_total [OF assms] maskWord_total [OF assms] cshWord_total
  by blast

theorem shift_mask_indices_in_range_witness:
  "(\<exists>t. ashWord (Caller 0) (Caller 1) 1000 init_store = Some t)
   \<and> (\<exists>t. lshWord (Caller 0) (Caller 1) (- 1000) init_store = Some t)
   \<and> (\<exists>t. maskWord (Caller 0) (Caller 1) 1000 init_store = Some t)
   \<and> (\<exists>t. cshWord (Caller 0) (Caller 1) 64 init_store = Some t)"
proof -
  have h: "(1000 :: int) \<noteq> - (2 ^ 31)" "(- 1000 :: int) \<noteq> - (2 ^ 31)" "(64 :: int) \<noteq> - (2 ^ 31)"
    "\<bar>64 :: int\<bar> \<le> 64" by simp_all
  from shift_mask_indices_in_range [OF h(1), of "Caller 0" "Caller 1" init_store]
    shift_mask_indices_in_range [OF h(2), of "Caller 0" "Caller 1" init_store]
    shift_mask_indices_in_range [OF h(3), of "Caller 0" "Caller 1" init_store] h(4)
  show ?thesis by blast
qed

text \<open>
  For a count k with 16 <= k <= 32, cshWord rotates the operand left by
  k bits, and cshWord with the count -k does exactly the same.
\<close>

theorem cshWord_rotates_left_for_both_signs:
  assumes "16 \<le> k" and "k \<le> 32"
  shows "cshWord (Caller i) opd k s =
           Some (s(Csh_localop := s opd,
                   Caller i := push_bit (nat k) (s opd) OR drop_bit (32 - nat k) (s opd)))
       \<and> cshWord (Caller i) opd (- k) s = cshWord (Caller i) opd k s"
  using assms cshWord_ge16 [of k "Caller i" opd s] cshWord_ge16 [of "- k" "Caller i" opd s]
  by simp

theorem cshWord_rotates_left_for_both_signs_witness:
  "cshWord (Caller 0) (Caller 1) 24 (init_store(Caller 1 := 0x12345678))
     = Some (init_store(Caller 1 := 0x12345678, Csh_localop := 0x12345678, Caller 0 := 0x78123456))
   \<and> cshWord (Caller 0) (Caller 1) (- 24) (init_store(Caller 1 := 0x12345678))
     = cshWord (Caller 0) (Caller 1) 24 (init_store(Caller 1 := 0x12345678))"
proof -
  have h: "(16 :: int) \<le> 24" "(24 :: int) \<le> 32" by simp_all
  have v: "push_bit 24 (0x12345678 :: 32 word) OR drop_bit 8 0x12345678 = 0x78123456"
    by (simp add: push_bit_eq_mult drop_bit_eq_div word_eq_iff_unsigned [where 'a = nat]
        unsigned_or_eq unat_word_ariths unat_div)
  have n: "nat 24 = 24" "32 - (24 :: nat) = 8" by simp_all
  from cshWord_rotates_left_for_both_signs [OF h, of 0 "Caller 1" "init_store(Caller 1 := 0x12345678)"]
  have "cshWord (Caller 0) (Caller 1) 24 (init_store(Caller 1 := 0x12345678)) =
           Some ((init_store(Caller 1 := 0x12345678))(Csh_localop := 0x12345678,
                   Caller 0 := push_bit 24 0x12345678 OR drop_bit 8 0x12345678))
       \<and> cshWord (Caller 0) (Caller 1) (- 24) (init_store(Caller 1 := 0x12345678))
          = cshWord (Caller 0) (Caller 1) 24 (init_store(Caller 1 := 0x12345678))"
    by (simp only: n fun_upd_same)
  then show ?thesis by (simp only: v)
qed

text \<open>
  For a count of magnitude c with 0 < c < 16, cshWord never writes the
  bits c..2c-1 of the result buffer: they keep what the buffer held before the call.
\<close>

theorem cshWord_small_count_keeps_old_result_bits:
  assumes "0 < \<bar>count\<bar>" and "\<bar>count\<bar> < 16"
  shows "\<exists>t. cshWord (Caller i) opd count s = Some t
     \<and> (\<forall>n < 32. nat \<bar>count\<bar> \<le> n \<and> n < 2 * nat \<bar>count\<bar> \<longrightarrow> bit (t (Caller i)) n = bit (s (Caller i)) n)"
  using cshWord_lt16 [OF assms, of "Caller i" opd s] by auto

theorem cshWord_small_count_keeps_old_result_bits_witness:
  "\<exists>t. cshWord (Caller 0) (Caller 1) 1 (init_store(Caller 1 := - 1)) = Some t
     \<and> \<not> bit (t (Caller 0)) 1 \<and> bit (- 1 :: 32 word) 0"
proof -
  have h: "0 < \<bar>1 :: int\<bar>" "\<bar>1 :: int\<bar> < 16" by simp_all
  from cshWord_small_count_keeps_old_result_bits [OF h, of 0 "Caller 1" "init_store(Caller 1 := - 1)"]
  obtain t where t: "cshWord (Caller 0) (Caller 1) 1 (init_store(Caller 1 := - 1)) = Some t"
    "\<forall>n < 32. nat \<bar>1 :: int\<bar> \<le> n \<and> n < 2 * nat \<bar>1 :: int\<bar> \<longrightarrow>
        bit (t (Caller 0)) n = bit ((init_store(Caller 1 := - 1)) (Caller 0)) n"
    by blast
  from t(2) have "bit (t (Caller 0)) 1 = bit ((init_store(Caller 1 := - 1)) (Caller 0)) 1"
    by simp
  then have "\<not> bit (t (Caller 0)) 1" by simp
  with t(1) show ?thesis by simp
qed

text \<open>
  mulWord leaves the product of its operands, wrapped to 32 bits, in the
  result buffer, for operands in any buffers the caller can name.
\<close>

theorem mulWord_wrapped_product:
  assumes "globals_ok s" and "readable op1" and "readable op2"
  shows "\<exists>s'. mulWord (nat wordsize) (Caller i) op1 op2 s = Some s'
     \<and> s' (Caller i) = s op1 * s op2
     \<and> sint (s' (Caller i)) = signed_take_bit 31 (sint (s op1) * sint (s op2))"
proof -
  have z: "s ZeroWord = 0" using assms(1) by (simp add: globals_ok_def zeroWord_def)
  from mulWord_eq [of s op1 op2 i, OF z assms(2,3)]
  obtain s' where s': "mulWord 32 (Caller i) op1 op2 s = Some s'" "s' (Caller i) = s op1 * s op2"
    by blast
  then show ?thesis by (simp add: wordsize_def sint_word_ariths)
qed

theorem mulWord_wrapped_product_witness:
  "\<exists>s'. mulWord 32 (Caller 0) (Caller 0) (Caller 1) (init_store(Caller 0 := 3, Caller 1 := - 3)) = Some s'
     \<and> s' (Caller 0) = - 9"
proof -
  have h: "globals_ok (init_store(Caller 0 := 3, Caller 1 := - 3))" "readable (Caller 0)" "readable (Caller 1)"
    by simp_all
  from mulWord_wrapped_product [OF h, of 0] show ?thesis by (auto simp: wordsize_def)
qed

text \<open>
  The bound of wordsize iterations on the loop of mulWord is reached:
  with the min-word as second operand, 31 iterations are not enough.
\<close>

theorem mulWord_needs_all_iterations:
  assumes "globals_ok s" and "readable op1" and "readable op2" and "s op2 = minWord"
  shows "mulWord 31 (Caller i) op1 op2 s = None"
proof -
  have z: "s ZeroWord = 0" using assms(1) by (simp add: globals_ok_def zeroWord_def)
  have m: "mag minWord = minWord" by (simp add: mag_def neg_minWord)
  have u: "2 ^ 31 \<le> unat minWord" by (simp add: minWord_def)
  have "mulWord_loop 31 (Caller i)
      (s(Mul_localop1 := mag (s op1), Mul_localop2 := mag (s op2), Caller i := 0, Mul_one := 1)) = None"
    using u by (intro mulWord_loop_out_of_fuel) (simp_all add: assms(4) m)
  then show ?thesis
    by (simp add: mulWord_unfold [of s op1 op2 31 i, OF z assms(2,3)])
qed

theorem mulWord_needs_all_iterations_witness:
  "mulWord 31 (Caller 0) (Caller 1) (Caller 2) (init_store(Caller 1 := 3, Caller 2 := minWord)) = None"
proof -
  have h: "globals_ok (init_store(Caller 1 := 3, Caller 2 := minWord))" "readable (Caller 1)" "readable (Caller 2)"
    "(init_store(Caller 1 := 3, Caller 2 := minWord)) (Caller 2) = minWord"
    by simp_all
  from mulWord_needs_all_iterations [OF h] show ?thesis .
qed

text \<open>
  addWord, subWord, notWord, negativeWord, lshWord, ashWord (counts of
  magnitude at most 31) and mulWord leave the same word in a result buffer that is
  also an operand buffer as in a separate result buffer.
\<close>

theorem aliased_result_same_as_distinct:
  assumes "globals_ok s" and "readable op1" and "readable op2" and "op1 \<noteq> ZeroWord"
    and "- 31 \<le> count" and "count \<le> 31"
  shows "buffer_after (addWord op1 op1 op2 s) op1 = buffer_after (addWord (Caller i) op1 op2 s) (Caller i)
     \<and> buffer_after (addWord op2 op1 op2 s) op2 = buffer_after (addWord (Caller i) op1 op2 s) (Caller i)
     \<and> buffer_after (subWord op1 op1 op2 s) op1 = buffer_after (subWord (Caller i) op1 op2 s) (Caller i)
     \<and> buffer_after (subWord op2 op1 op2 s) op2 = buffer_after (subWord (Caller i) op1 op2 s) (Caller i)
     \<and> buffer_after (notWord op1 op1 s) op1 = buffer_after (notWord (Caller i) op1 s) (Caller i)
     \<and> buffer_after (negativeWord op1 op1 s) op1 = buffer_after (negativeWord (Caller i) op1 s) (Caller i)
     \<and> buffer_after (lshWord op1 op1 count s) op1 = buffer_after (lshWord (Caller i) op1 count s) (Caller i)
     \<and> buffer_after (ashWord op1 op1 count s) op1 = buffer_after (ashWord (Caller i) op1 count s) (Caller i)
     \<and> buffer_after (mulWord (nat wordsize) (Caller i) (Caller i) op2 s) (Caller i)
           = buffer_after (mulWord (nat wordsize) (Caller j) (Caller i) op2 s) (Caller j)
     \<and> buffer_after (addWord (Caller i) op1 op2 s) (Caller i) = Some (s op1 + s op2)
     \<and> buffer_after (mulWord (nat wordsize) (Caller i) op1 op2 s) (Caller i) = Some (s op1 * s op2)"
proof -
  have z: "s ZeroWord = 0" using assms(1) by (simp add: globals_ok_def zeroWord_def)
  note n = readable_not_local [OF assms(2)]
  have m1: "buffer_after (mulWord (nat wordsize) (Caller i) op1 op2 s) (Caller i) = Some (s op1 * s op2)"
    using mulWord_eq [of s op1 op2 i, OF z assms(2,3)] by (auto simp: buffer_after_def wordsize_def)
  have m2: "buffer_after (mulWord (nat wordsize) (Caller k) (Caller i) op2 s) (Caller k)
        = Some (s (Caller i) * s op2)" for k
    using mulWord_eq [of s "Caller i" op2 k, OF z _ assms(3)]
    by (auto simp: buffer_after_def wordsize_def)
  have mm: "buffer_after (mulWord (nat wordsize) (Caller i) (Caller i) op2 s) (Caller i)
           = buffer_after (mulWord (nat wordsize) (Caller j) (Caller i) op2 s) (Caller j)"
    by (simp only: m2)
  have plain:
    "buffer_after (addWord op1 op1 op2 s) op1 = buffer_after (addWord (Caller i) op1 op2 s) (Caller i)"
    "buffer_after (addWord op2 op1 op2 s) op2 = buffer_after (addWord (Caller i) op1 op2 s) (Caller i)"
    "buffer_after (subWord op1 op1 op2 s) op1 = buffer_after (subWord (Caller i) op1 op2 s) (Caller i)"
    "buffer_after (subWord op2 op1 op2 s) op2 = buffer_after (subWord (Caller i) op1 op2 s) (Caller i)"
    "buffer_after (notWord op1 op1 s) op1 = buffer_after (notWord (Caller i) op1 s) (Caller i)"
    "buffer_after (negativeWord op1 op1 s) op1 = buffer_after (negativeWord (Caller i) op1 s) (Caller i)"
    "buffer_after (addWord (Caller i) op1 op2 s) (Caller i) = Some (s op1 + s op2)"
    using z assms(4)
    by (simp_all add: buffer_after_def addWord_eq subWord_eq notWord_eq negativeWord_eq)
  from plain lshWord_alias [OF assms(5,6) n(3), of s i] ashWord_alias [OF assms(5,6) n(1), of s i] mm m1
  show ?thesis by blast
qed

theorem aliased_result_same_as_distinct_witness:
  "buffer_after (addWord (Caller 1) (Caller 1) (Caller 2) (init_store(Caller 1 := 5, Caller 2 := 7))) (Caller 1)
     = Some 12
   \<and> buffer_after (ashWord (Caller 1) (Caller 1) (- 1) (init_store(Caller 1 := 5, Caller 2 := 7))) (Caller 1)
     = buffer_after (ashWord (Caller 0) (Caller 1) (- 1) (init_store(Caller 1 := 5, Caller 2 := 7))) (Caller 0)
   \<and> buffer_after (mulWord 32 (Caller 1) (Caller 1) (Caller 2) (init_store(Caller 1 := 5, Caller 2 := 7))) (Caller 1)
     = buffer_after (mulWord 32 (Caller 3) (Caller 1) (Caller 2) (init_store(Caller 1 := 5, Caller 2 := 7))) (Caller 3)"
proof -
  have h: "globals_ok (init_store(Caller 1 := 5, Caller 2 := 7))" "readable (Caller 1)" "readable (Caller 2)"
    "Caller 1 \<noteq> ZeroWord" "- 31 \<le> (- 1 :: int)" "(- 1 :: int) \<le> 31"
    by simp_all
  from aliased_result_same_as_distinct [OF h, of 0]
    aliased_result_same_as_distinct [OF h, of 1 3]
  show ?thesis by (simp add: wordsize_def)
qed

text \<open>
  Division by zero for any placement of the operands: the call returns, the
  remainder buffer holds zero, and the quotient buffer holds minWord exactly when the
  dividend is negative and lies in neither the quotient nor the remainder buffer;
  otherwise it holds maxWord.
\<close>

theorem div2Word_zero_divisor:
  assumes "globals_ok s" and "i \<noteq> j" and "s op2 = zeroWord"
  shows "div2Word (Caller i) (Caller j) op1 op2 s =
           Some (s(Caller j := zeroWord,
                   Caller i := (if op1 = Caller i \<or> op1 = Caller j \<or> 0 \<le> sint (s op1)
                                then maxWord else minWord)))"
proof -
  let ?s1 = "s(Caller i := 0, Caller j := 0)"
  have B: "?s1 op2 = 0"
    using assms(3) by (simp add: zeroWord_def)
  have sg: "\<not> bit (s op1) 31 \<longleftrightarrow> 0 \<le> sint (s op1)"
    by (simp add: bit31_sint not_less)
  have A: "\<not> bit (?s1 op1) 31 \<longleftrightarrow> op1 = Caller i \<or> op1 = Caller j \<or> 0 \<le> sint (s op1)"
    using sg by auto
  show ?thesis
    using div2Word_zero [OF assms(1,2) B, of op1] by (simp only: A zeroWord_def)
qed

theorem div2Word_zero_divisor_witness:
  "div2Word (Caller 0) (Caller 1) (Caller 2) ZeroWord
     (init_store(Caller 2 := - 7))
   = Some ((init_store(Caller 2 := - 7))
             (Caller 1 := zeroWord, Caller 0 := minWord))"
proof -
  let ?s = "init_store(Caller 2 := - 7) :: store"
  have h1: "globals_ok ?s" by simp
  have h2: "(0 :: nat) \<noteq> 1" by simp
  have h5: "?s ZeroWord = zeroWord" by (simp add: init_store_def)
  have neg: "\<not> (Caller 2 = Caller 0 \<or> Caller 2 = Caller 1 \<or> 0 \<le> sint (?s (Caller 2)))" by simp
  from div2Word_zero_divisor [OF h1 h2 h5, of "Caller 2"] neg show ?thesis by (simp only: if_False)
qed

end
